theory Spec2Isabelle
  imports Complex_Main "HOL-Library.AList" "HOL-Library.Log_Nat"
begin

section \<open>Netflyx: the resource cache\<close>

subsection \<open>JavaScript values and errors\<close>

text \<open>
  A resource is a JavaScript value. The model has \<open>undefined\<close>, \<open>null\<close>, booleans,
  integer-valued numbers, strings, arrays and plain objects. \<open>JNum n\<close> stands for the
  number \<open>n\<close> when \<open>n\<close> is a safe integer (at most \<open>2^53 - 1\<close> in magnitude), where the
  number and its decimal numeral determine each other; negative zero is not told from
  zero. An object is the list of its own properties in creation order, which is the order
  in which \<open>JSON.stringify\<close> writes them except for keys that look like array indices;
  equality of objects as lists is finer than the structural equality of JavaScript, which
  ignores the order. Numbers with a fraction or an exponent, and code units above 255 in
  strings, are outside the model: the parser reports them as \<open>Unmodelled\<close> instead of
  guessing.

  Every exception is a value of \<open>error\<close>: \<open>SyntaxError\<close> from \<open>JSON.parse\<close>,
  \<open>QuotaExceededError\<close> from \<open>localStorage.setItem\<close>, \<open>TypeError\<close> from a \<open>fetch\<close> that
  cannot reach the server, \<open>ResponseNotOkay\<close> for the \<open>Error\<close> thrown by \<open>get\<close> on a
  response whose \<open>ok\<close> flag is false, and \<open>Rejected\<close> for any other reason a promise is
  rejected with.
\<close>

datatype jsval = JUndefined | JNull | JBool bool | JNum int | JStr string
  | JArr "jsval list" | JObj "(string \<times> jsval) list"

datatype error = SyntaxError | QuotaExceededError | TypeError | ResponseNotOkay
  | Rejected string | Unmodelled

subsection \<open>\<open>JSON.stringify\<close>\<close>

definition dquote :: char where
  "dquote = CHR 0x22"

definition backslash :: char where
  "backslash = CHR 0x5C"

definition hexdigit :: "nat \<Rightarrow> char" where
  "hexdigit d = (if d < 10 then char_of (48 + d) else char_of (87 + d))"

text \<open>The escapes of \<open>QuoteJSONString\<close>: the two-character escapes, and \<open>\u00XX\<close> for every
  other control character.\<close>

definition escape_char :: "char \<Rightarrow> string" where
  "escape_char c =
     (if c = CHR 0x08 then [backslash, CHR ''b'']
      else if c = CHR 0x09 then [backslash, CHR ''t'']
      else if c = CHR 0x0A then [backslash, CHR ''n'']
      else if c = CHR 0x0C then [backslash, CHR ''f'']
      else if c = CHR 0x0D then [backslash, CHR ''r'']
      else if c = dquote then [backslash, dquote]
      else if c = backslash then [backslash, backslash]
      else if (of_char c :: nat) < 32
        then [backslash, CHR ''u'', CHR ''0'', CHR ''0'',
              hexdigit (of_char c div 16), hexdigit (of_char c mod 16)]
      else [c])"

definition QuoteJSONString :: "string \<Rightarrow> string" where
  "QuoteJSONString s = dquote # concat (map escape_char s) @ [dquote]"

definition digit_char :: "int \<Rightarrow> char" where
  "digit_char d = char_of (48 + d)"

function digits_of :: "int \<Rightarrow> string" where
  "digits_of n =
     (if n < 10 then [digit_char n] else digits_of (n div 10) @ [digit_char (n mod 10)])"
  by pat_completeness auto
termination
  by (relation "measure nat") auto

declare digits_of.simps [simp del]

definition Number_toString :: "int \<Rightarrow> string" where
  "Number_toString n = (if n < 0 then CHR ''-'' # digits_of (- n) else digits_of n)"

fun join :: "string list \<Rightarrow> string" where
  "join [] = []"
| "join [x] = x"
| "join (x # y # ys) = x @ CHR '','' # join (y # ys)"

text \<open>
  \<open>SerializeJSONProperty\<close> has no text for \<open>undefined\<close>: an array writes \<open>null\<close> in its
  place, an object leaves the property out.
\<close>

fun SerializeJSONProperty :: "jsval \<Rightarrow> string option"
  and serialize_elements :: "jsval list \<Rightarrow> string list"
  and serialize_members :: "(string \<times> jsval) list \<Rightarrow> string list"
where
  "SerializeJSONProperty JUndefined = None"
| "SerializeJSONProperty JNull = Some ''null''"
| "SerializeJSONProperty (JBool b) = Some (if b then ''true'' else ''false'')"
| "SerializeJSONProperty (JNum n) = Some (Number_toString n)"
| "SerializeJSONProperty (JStr s) = Some (QuoteJSONString s)"
| "SerializeJSONProperty (JArr vs) = Some (''['' @ join (serialize_elements vs) @ '']'')"
| "SerializeJSONProperty (JObj kvs) = Some (''{'' @ join (serialize_members kvs) @ ''}'')"
| "serialize_elements [] = []"
| "serialize_elements (v # vs) =
     (case SerializeJSONProperty v of None \<Rightarrow> ''null'' | Some t \<Rightarrow> t) # serialize_elements vs"
| "serialize_members [] = []"
| "serialize_members ((k, v) # kvs) =
     (case SerializeJSONProperty v of
        None \<Rightarrow> serialize_members kvs
      | Some t \<Rightarrow> (QuoteJSONString k @ CHR '':'' # t) # serialize_members kvs)"

text \<open>\<open>JSON.stringify value\<close> is a string, or \<open>undefined\<close> (\<open>None\<close>) when the value is.\<close>

definition JSON_stringify :: "jsval \<Rightarrow> string option" where
  "JSON_stringify v = SerializeJSONProperty v"

subsection \<open>\<open>JSON.parse\<close>\<close>

text \<open>
  A recursive-descent parser of the JSON grammar. The recursion into arrays and objects
  is bounded by fuel; \<open>JSON_parse\<close> gives it more fuel than any text can use
  (lemma \<open>JSON_parse_fuel\<close> below), so \<open>Exhausted\<close> never reaches the caller.
\<close>

datatype 'a parsed = Exhausted | Failed error | Parsed 'a string

text \<open>\<open>map_parsed g\<close>, the map function of this type, applies \<open>g\<close> to the value of a
  \<open>Parsed\<close> result and leaves the other two results as they are.\<close>

definition is_ws :: "char \<Rightarrow> bool" where
  "is_ws c = (c = CHR '' '' \<or> c = CHR 0x09 \<or> c = CHR 0x0A \<or> c = CHR 0x0D)"

definition skip_ws :: "string \<Rightarrow> string" where
  "skip_ws = dropWhile is_ws"

definition is_digit :: "char \<Rightarrow> bool" where
  "is_digit c = (48 \<le> (of_char c :: int) \<and> (of_char c :: int) \<le> 57)"

definition digit_val :: "char \<Rightarrow> int" where
  "digit_val c = of_char c - 48"

definition int_of_digits :: "string \<Rightarrow> int" where
  "int_of_digits ds = foldl (\<lambda>acc c. 10 * acc + digit_val c) 0 ds"

definition hexval :: "char \<Rightarrow> nat option" where
  "hexval c =
     (let n = (of_char c :: nat)
      in if 48 \<le> n \<and> n \<le> 57 then Some (n - 48)
         else if 97 \<le> n \<and> n \<le> 102 then Some (n - 87)
         else if 65 \<le> n \<and> n \<le> 70 then Some (n - 55)
         else None)"

definition hex4 :: "char \<Rightarrow> char \<Rightarrow> char \<Rightarrow> char \<Rightarrow> nat option" where
  "hex4 a b c d =
     (case (hexval a, hexval b, hexval c, hexval d) of
        (Some w, Some x, Some y, Some z) \<Rightarrow> Some (((w * 16 + x) * 16 + y) * 16 + z)
      | _ \<Rightarrow> None)"

definition unescape :: "char \<Rightarrow> char option" where
  "unescape e =
     (if e = dquote then Some dquote
      else if e = backslash then Some backslash
      else if e = CHR ''/'' then Some (CHR ''/'')
      else if e = CHR ''b'' then Some (CHR 0x08)
      else if e = CHR ''f'' then Some (CHR 0x0C)
      else if e = CHR ''n'' then Some (CHR 0x0A)
      else if e = CHR ''r'' then Some (CHR 0x0D)
      else if e = CHR ''t'' then Some (CHR 0x09)
      else None)"

text \<open>The characters of a string literal, after its opening quote, up to the closing one.\<close>

fun parse_chars :: "string \<Rightarrow> string parsed" where
  "parse_chars [] = Failed SyntaxError"
| "parse_chars (c # cs) =
     (if c = dquote then Parsed [] cs
      else if c = backslash then
        (case cs of
           [] \<Rightarrow> Failed SyntaxError
         | e # cs' \<Rightarrow>
             if e = CHR ''u'' then
               (case cs' of
                  h1 # h2 # h3 # h4 # cs'' \<Rightarrow>
                    (case hex4 h1 h2 h3 h4 of
                       None \<Rightarrow> Failed SyntaxError
                     | Some n \<Rightarrow>
                         if n < 256 then map_parsed ((#) (char_of n)) (parse_chars cs'')
                         else Failed Unmodelled)
                | _ \<Rightarrow> Failed SyntaxError)
             else
               (case unescape e of
                  None \<Rightarrow> Failed SyntaxError
                | Some ch \<Rightarrow> map_parsed ((#) ch) (parse_chars cs')))
      else if (of_char c :: nat) < 32 then Failed SyntaxError
      else map_parsed ((#) c) (parse_chars cs))"

definition max_safe_integer :: int where
  "max_safe_integer = 9007199254740991"

text \<open>
  A number literal: an optional minus sign, then \<open>0\<close> or a digit sequence without a
  leading zero. A fraction, an exponent, or a magnitude above \<open>2^53 - 1\<close> (where a
  JavaScript number is no longer the integer written) is outside the model.
\<close>

definition parse_number :: "string \<Rightarrow> jsval parsed" where
  "parse_number s =
     (let negative = (case s of [] \<Rightarrow> False | c # _ \<Rightarrow> c = CHR ''-'');
          s1 = (if negative then tl s else s)
      in case s1 of
           [] \<Rightarrow> Failed SyntaxError
         | c # r \<Rightarrow>
             if \<not> is_digit c then Failed SyntaxError
             else
               let ds = (if c = CHR ''0'' then [c] else takeWhile is_digit s1);
                   rest = (if c = CHR ''0'' then r else dropWhile is_digit s1);
                   n = int_of_digits ds
               in if (case rest of [] \<Rightarrow> False
                      | d # _ \<Rightarrow> d = CHR ''.'' \<or> d = CHR ''e'' \<or> d = CHR ''E'')
                     \<or> max_safe_integer < n
                  then Failed Unmodelled
                  else Parsed (JNum (if negative then - n else n)) rest)"

definition parse_literal :: "string \<Rightarrow> jsval \<Rightarrow> string \<Rightarrow> jsval parsed" where
  "parse_literal name v s =
     (if take (length name) s = name then Parsed v (drop (length name) s)
      else Failed SyntaxError)"

text \<open>When a key occurs twice in an object text, the later value wins and the property
  keeps its first position.\<close>

definition own_properties :: "(string \<times> jsval) list \<Rightarrow> (string \<times> jsval) list" where
  "own_properties kvs = foldl (\<lambda>acc (k, v). AList.update k v acc) [] kvs"

fun parse_value :: "nat \<Rightarrow> string \<Rightarrow> jsval parsed"
  and parse_elements :: "nat \<Rightarrow> string \<Rightarrow> jsval list parsed"
  and parse_members :: "nat \<Rightarrow> string \<Rightarrow> (string \<times> jsval) list parsed"
where
  "parse_value 0 s = Exhausted"
| "parse_value (Suc fuel) s =
     (case skip_ws s of
        [] \<Rightarrow> Failed SyntaxError
      | c # r \<Rightarrow>
          if c = CHR ''['' then
            (case skip_ws r of
               [] \<Rightarrow> Failed SyntaxError
             | c' # r' \<Rightarrow>
                 if c' = CHR '']'' then Parsed (JArr []) r'
                 else map_parsed JArr (parse_elements fuel r))
          else if c = CHR ''{'' then
            (case skip_ws r of
               [] \<Rightarrow> Failed SyntaxError
             | c' # r' \<Rightarrow>
                 if c' = CHR ''}'' then Parsed (JObj []) r'
                 else map_parsed (\<lambda>kvs. JObj (own_properties kvs)) (parse_members fuel r))
          else if c = dquote then map_parsed JStr (parse_chars r)
          else if c = CHR ''n'' then parse_literal ''null'' JNull (c # r)
          else if c = CHR ''t'' then parse_literal ''true'' (JBool True) (c # r)
          else if c = CHR ''f'' then parse_literal ''false'' (JBool False) (c # r)
          else if c = CHR ''-'' \<or> is_digit c then parse_number (c # r)
          else Failed SyntaxError)"
| "parse_elements 0 s = Exhausted"
| "parse_elements (Suc fuel) s =
     (case parse_value fuel s of
        Exhausted \<Rightarrow> Exhausted
      | Failed e \<Rightarrow> Failed e
      | Parsed v r \<Rightarrow>
          (case skip_ws r of
             [] \<Rightarrow> Failed SyntaxError
           | c # r' \<Rightarrow>
               if c = CHR '','' then map_parsed ((#) v) (parse_elements fuel r')
               else if c = CHR '']'' then Parsed [v] r'
               else Failed SyntaxError))"
| "parse_members 0 s = Exhausted"
| "parse_members (Suc fuel) s =
     (case skip_ws s of
        [] \<Rightarrow> Failed SyntaxError
      | q # r \<Rightarrow>
          if q \<noteq> dquote then Failed SyntaxError
          else
            (case parse_chars r of
               Exhausted \<Rightarrow> Exhausted
             | Failed e \<Rightarrow> Failed e
             | Parsed k r1 \<Rightarrow>
                 (case skip_ws r1 of
                    [] \<Rightarrow> Failed SyntaxError
                  | c1 # r2 \<Rightarrow>
                      if c1 \<noteq> CHR '':'' then Failed SyntaxError
                      else
                        (case parse_value fuel r2 of
                           Exhausted \<Rightarrow> Exhausted
                         | Failed e \<Rightarrow> Failed e
                         | Parsed v r3 \<Rightarrow>
                             (case skip_ws r3 of
                                [] \<Rightarrow> Failed SyntaxError
                              | c3 # r4 \<Rightarrow>
                                  if c3 = CHR '','' then
                                    map_parsed ((#) (k, v)) (parse_members fuel r4)
                                  else if c3 = CHR ''}'' then Parsed [(k, v)] r4
                                  else Failed SyntaxError)))))"

definition JSON_parse :: "string \<Rightarrow> error + jsval" where
  "JSON_parse text =
     (case parse_value (2 * length text + 1) text of
        Exhausted \<Rightarrow> Inl Unmodelled
      | Failed e \<Rightarrow> Inl e
      | Parsed v rest \<Rightarrow> if skip_ws rest = [] then Inr v else Inl SyntaxError)"

text \<open>Two notions used to state what the parser does on a serialized value: the text an
  array writes for an element, and what may follow a value inside a text.\<close>

definition element_text :: "jsval \<Rightarrow> string" where
  "element_text v = (case SerializeJSONProperty v of None \<Rightarrow> ''null'' | Some t \<Rightarrow> t)"

definition delimited :: "string \<Rightarrow> bool" where
  "delimited rest =
     (case rest of [] \<Rightarrow> True | c # _ \<Rightarrow> c = CHR '','' \<or> c = CHR '']'' \<or> c = CHR ''}'')"

subsection \<open>Values inside and outside JSON\<close>

text \<open>
  \<open>wellformed\<close> delimits the values the model stands for: numbers are safe integers and
  an object has each key once. \<open>json_value\<close> are the well-formed values that JSON can
  represent: \<open>undefined\<close> occurs nowhere in them. \<open>json_image v\<close> is \<open>v\<close> with every
  \<open>undefined\<close> property dropped and every \<open>undefined\<close> array element replaced by \<open>null\<close>.
\<close>

fun wellformed :: "jsval \<Rightarrow> bool"
  and wellformed_elements :: "jsval list \<Rightarrow> bool"
  and wellformed_members :: "(string \<times> jsval) list \<Rightarrow> bool"
where
  "wellformed JUndefined = True"
| "wellformed JNull = True"
| "wellformed (JBool b) = True"
| "wellformed (JNum n) = (\<bar>n\<bar> \<le> max_safe_integer)"
| "wellformed (JStr s) = True"
| "wellformed (JArr vs) = wellformed_elements vs"
| "wellformed (JObj kvs) = (distinct (map fst kvs) \<and> wellformed_members kvs)"
| "wellformed_elements [] = True"
| "wellformed_elements (v # vs) = (wellformed v \<and> wellformed_elements vs)"
| "wellformed_members [] = True"
| "wellformed_members ((k, v) # kvs) = (wellformed v \<and> wellformed_members kvs)"

fun json_value :: "jsval \<Rightarrow> bool"
  and json_elements :: "jsval list \<Rightarrow> bool"
  and json_members :: "(string \<times> jsval) list \<Rightarrow> bool"
where
  "json_value JUndefined = False"
| "json_value JNull = True"
| "json_value (JBool b) = True"
| "json_value (JNum n) = (\<bar>n\<bar> \<le> max_safe_integer)"
| "json_value (JStr s) = True"
| "json_value (JArr vs) = json_elements vs"
| "json_value (JObj kvs) = (distinct (map fst kvs) \<and> json_members kvs)"
| "json_elements [] = True"
| "json_elements (v # vs) = (json_value v \<and> json_elements vs)"
| "json_members [] = True"
| "json_members ((k, v) # kvs) = (json_value v \<and> json_members kvs)"

fun json_image :: "jsval \<Rightarrow> jsval"
  and image_elements :: "jsval list \<Rightarrow> jsval list"
  and image_members :: "(string \<times> jsval) list \<Rightarrow> (string \<times> jsval) list"
where
  "json_image JUndefined = JUndefined"
| "json_image JNull = JNull"
| "json_image (JBool b) = JBool b"
| "json_image (JNum n) = JNum n"
| "json_image (JStr s) = JStr s"
| "json_image (JArr vs) = JArr (image_elements vs)"
| "json_image (JObj kvs) = JObj (image_members kvs)"
| "image_elements [] = []"
| "image_elements (v # vs) =
     (if v = JUndefined then JNull else json_image v) # image_elements vs"
| "image_members [] = []"
| "image_members ((k, v) # kvs) =
     (if v = JUndefined then image_members kvs else (k, json_image v) # image_members kvs)"

subsection \<open>\<open>window.localStorage\<close>\<close>

text \<open>
  The persistent store: string keys, string values, and a quota. \<open>getItem\<close> returns the
  value or \<open>null\<close> (\<open>None\<close>). \<open>setItem\<close> throws \<open>QuotaExceededError\<close> when the value cannot be
  set; the model counts the code units of all keys and values against the quota, whose
  size is the browser's choice. Nothing in this program calls \<open>removeItem\<close> or \<open>clear\<close>.
\<close>

record storage =
  entries :: "(string \<times> string) list"
  quota :: nat

definition getItem :: "storage \<Rightarrow> string \<Rightarrow> string option" where
  "getItem st key = map_of (entries st) key"

definition usage :: "(string \<times> string) list \<Rightarrow> nat" where
  "usage es = sum_list (map (\<lambda>(k, v). length k + length v) es)"

definition setItem :: "storage \<Rightarrow> string \<Rightarrow> string \<Rightarrow> error + storage" where
  "setItem st key v =
     (let es = AList.update key v (entries st)
      in if usage es \<le> quota st then Inr (st\<lparr>entries := es\<rparr>) else Inl QuotaExceededError)"

text \<open>\<open>setItem\<close> converts its argument to a string: \<open>undefined\<close> becomes the text
  \<open>undefined\<close>.\<close>

definition ToString :: "string option \<Rightarrow> string" where
  "ToString x = (case x of None \<Rightarrow> ''undefined'' | Some t \<Rightarrow> t)"

text \<open>The test \<open>if (stored)\<close> on a \<open>string | null\<close>: \<open>null\<close> and the empty string are falsy.\<close>

definition truthy :: "string option \<Rightarrow> bool" where
  "truthy stored = (case stored of None \<Rightarrow> False | Some s \<Rightarrow> s \<noteq> [])"

subsection \<open>\<open>preferStorage\<close>\<close>

text \<open>
  \<^verbatim>\<open>
  const preferStorage = async <T extends unknown>(
    resourceKey: string,
    getResource: () => Promise<T>
  ): Promise<T> => {
    const stored = window.localStorage.getItem(resourceKey);
    if (stored) return JSON.parse(stored);
    const resource = await getResource();
    window.localStorage.setItem(resourceKey, JSON.stringify(resource));
    return resource;
  };
  \<close>
  The world is the store together with everything outside it that a producer can touch
  (the network, the console, a call counter), of type \<open>'n\<close>. A producer takes the outside
  state and returns how its promise settles, \<open>Inl\<close> for a rejection, with the new outside
  state: invoking it is visible there. The promise that \<open>preferStorage\<close> returns settles
  the same way, \<open>Inl\<close> for a rejection. Calls run one after the other.
\<close>

type_synonym 'n producer = "'n \<Rightarrow> (error + jsval) \<times> 'n"

record 'n world =
  localStorage :: storage
  outside :: 'n

definition preferStorage ::
  "string \<Rightarrow> 'n producer \<Rightarrow> 'n world \<Rightarrow> (error + jsval) \<times> 'n world" where
  "preferStorage resourceKey getResource w =
     (let stored = getItem (localStorage w) resourceKey
      in if truthy stored then (JSON_parse (ToString stored), w)
         else
           (case getResource (outside w) of
              (Inl e, n) \<Rightarrow> (Inl e, w\<lparr>outside := n\<rparr>)
            | (Inr resource, n) \<Rightarrow>
                (case setItem (localStorage w) resourceKey (ToString (JSON_stringify resource)) of
                   Inl e \<Rightarrow> (Inl e, w\<lparr>outside := n\<rparr>)
                 | Inr st \<Rightarrow> (Inr resource, \<lparr>localStorage = st, outside = n\<rparr>))))"

text \<open>A sequence of calls against one store, as over the lifetime of the store: the
  results in order, and the final world.\<close>

fun calls :: "(string \<times> 'n producer) list \<Rightarrow> 'n world \<Rightarrow> (error + jsval) list \<times> 'n world" where
  "calls [] w = ([], w)"
| "calls ((k, p) # cs) w =
     (case preferStorage k p w of
        (r, w') \<Rightarrow> (case calls cs w' of (rs, w'') \<Rightarrow> (r # rs, w'')))"

text \<open>A producer that settles as given and counts its invocations.\<close>

definition counted :: "error + jsval \<Rightarrow> nat producer" where
  "counted settles n = (settles, Suc n)"

subsection \<open>\<open>get\<close>\<close>

text \<open>
  \<^verbatim>\<open>
  const get = <T extends unknown>(url: string): Promise<T> =>
    preferStorage(url, () =>
      fetch(`https://api.themoviedb.org/3${url}`)
        .then(response => {
          if (!response.ok) throw Error(`Response not okay: ${response}`);
          return response.json();
        })
        .catch(error => {
          console.error('Failed to fetch:', error);
        })
    );
  \<close>
  Outside the store there is the network, which answers a request with a failure or with
  a response (its \<open>ok\<close> flag and body), the list of requests made, and the console.
  \<open>fetch_json\<close> is the \<open>fetch(...).then(...)\<close> part, \<open>catch_log\<close> the \<open>.catch\<close> handler: it
  logs the error and returns nothing, so its promise is fulfilled with \<open>undefined\<close>.
\<close>

datatype fetch_result = NetworkFailure | Response bool string

record browser =
  network :: "string \<Rightarrow> fetch_result"
  requests :: "string list"
  console :: "error list"

definition fetch_json :: "string \<Rightarrow> browser producer" where
  "fetch_json url b =
     (let b' = b\<lparr>requests := requests b @ [url]\<rparr>
      in case network b url of
           NetworkFailure \<Rightarrow> (Inl TypeError, b')
         | Response ok body \<Rightarrow>
             if \<not> ok then (Inl ResponseNotOkay, b') else (JSON_parse body, b'))"

definition catch_log :: "browser producer \<Rightarrow> browser producer" where
  "catch_log p b =
     (case p b of
        (Inl e, b') \<Rightarrow> (Inr JUndefined, b'\<lparr>console := console b' @ [e]\<rparr>)
      | (Inr v, b') \<Rightarrow> (Inr v, b'))"

definition get :: "string \<Rightarrow> browser world \<Rightarrow> (error + jsval) \<times> browser world" where
  "get url = preferStorage url (catch_log (fetch_json (''https://api.themoviedb.org/3'' @ url)))"

text \<open>Two networks for concrete runs: one that cannot be reached, and one that answers
  every request with the given response.\<close>

definition unreachable :: "string \<Rightarrow> fetch_result" where
  "unreachable url = NetworkFailure"

definition answering :: "bool \<Rightarrow> string \<Rightarrow> string \<Rightarrow> fetch_result" where
  "answering ok body url = Response ok body"

section \<open>Netflyx: the banner helpers\<close>

subsection \<open>Strings and \<open>String.prototype.substr\<close>\<close>

text \<open>
  A JavaScript string is a sequence of code units; \<open>length\<close> counts them. The model uses
  \<^typ>\<open>string\<close>, one \<^typ>\<open>char\<close> per code unit. \<open>substr start len\<close> follows the
  language definition: a negative start counts from the end, the length is clamped to
  \<open>[0, size]\<close>, and the end never runs past the string.
\<close>

definition substr :: "string \<Rightarrow> int \<Rightarrow> int \<Rightarrow> string" where
  "substr s start len =
     (let size = int (length s);
          intStart = (if start < 0 then max (size + start) 0 else min start size);
          intLength = min (max len 0) size;
          intEnd = min (intStart + intLength) size
      in take (nat (intEnd - intStart)) (drop (nat intStart) s))"

subsection \<open>\<open>truncate\<close>\<close>

text \<open>
  \<^verbatim>\<open>
  const truncate = (limit: number, str: string): string =>
    str?.length > limit ? str?.substr(0, limit - 1) + '...' : str;
  \<close>
  The optional chaining shows that \<open>str\<close> may be \<open>undefined\<close> at run time (the caller passes
  \<open>movie?.overview\<close>): that is \<open>None\<close>, for which the comparison is false and \<open>str\<close> comes
  back as it is. The limit is an integer.
\<close>

definition truncate :: "int \<Rightarrow> string option \<Rightarrow> string option" where
  "truncate limit str =
     (case str of
        None \<Rightarrow> None
      | Some s \<Rightarrow>
          if int (length s) > limit then Some (substr s 0 (limit - 1) @ ''...'') else Some s)"

subsection \<open>Numbers in \<open>randomFrom\<close>: IEEE 754 doubles\<close>

text \<open>
  JavaScript numbers are IEEE 754 binary64 values, and every arithmetic operation returns
  the exact result rounded to the nearest double, ties to the double with an even
  significand. Every finite double is a whole multiple of \<open>2^-1074\<close>, so a double is modelled
  by that multiple, an integer: the number one is \<open>double_unit\<close>. A double has at most 53
  significant bits: \<open>round_double j\<close> rounds the exact value \<open>j\<close> to a multiple of the weight
  \<open>2^k\<close> of its 53rd bit (\<open>k\<close> is \<open>0\<close> below \<open>2^53\<close> units, where the doubles, subnormals
  included, are all the integers). Values beyond the largest finite double do not arise in
  \<open>randomFrom\<close>, where every value is below \<open>2^32\<close>.
\<close>

definition rne_div :: "int \<Rightarrow> int \<Rightarrow> int" where
  "rne_div p d =
     (let q = p div d; r = p mod d
      in if 2 * r < d then q else if d < 2 * r then q + 1 else if even q then q else q + 1)"

definition round_double :: "int \<Rightarrow> int" where
  "round_double j =
     (let k = nat (bitlen \<bar>j\<bar> - 53)
      in sgn j * (rne_div \<bar>j\<bar> (2 ^ k) * 2 ^ k))"

definition double_unit :: int where
  "double_unit = 2 ^ 1074"

definition is_double :: "int \<Rightarrow> bool" where
  "is_double j \<longleftrightarrow> round_double j = j"

subsection \<open>\<open>randomFrom\<close>\<close>

text \<open>
  \<^verbatim>\<open>
  const randomFrom = <T extends unknown>(array: T[]): T | null => {
    if (array.length === 0) return null;
    const randomIndex = Math.floor(Math.random() * array.length - 1);
    return array[randomIndex];
  };
  \<close>
  The draw of \<open>Math.random()\<close> is the argument \<open>x\<close>, a double in units of \<open>2^-1074\<close>. The
  length of an array is an integer below \<open>2^32\<close> and so a double; the product is rounded,
  then the difference; \<open>Math.floor\<close> is exact. Reading an array at an index outside
  \<open>0 .. length - 1\<close> yields \<open>undefined\<close>. The elements are JavaScript values (the caller
  passes the \<open>results\<close> of a parsed response), so \<open>undefined\<close> and \<open>null\<close> are values an
  element may have as well.
\<close>

definition array_get :: "jsval list \<Rightarrow> int \<Rightarrow> jsval" where
  "array_get array i =
     (if 0 \<le> i \<and> i < int (length array) then array ! nat i else JUndefined)"

definition randomIndex :: "int \<Rightarrow> jsval list \<Rightarrow> int" where
  "randomIndex x array =
     round_double (round_double (x * int (length array)) - double_unit) div double_unit"

definition randomFrom :: "int \<Rightarrow> jsval list \<Rightarrow> jsval" where
  "randomFrom x array =
     (if length array = 0 then JNull else array_get array (randomIndex x array))"

section \<open>Properties of the banner helpers\<close>

lemma substr_prefix:
  "substr s 0 len = take (nat len) s"
  by (auto simp: substr_def Let_def min_def max_def)

lemma rne_div_bounds:
  assumes "0 < d"
  shows "p div d \<le> rne_div p d" and "rne_div p d \<le> p div d + 1"
    and "2 * (rne_div p d * d) \<le> 2 * p + d"
proof -
  have eq: "p = p div d * d + p mod d" by simp
  show "p div d \<le> rne_div p d" by (simp add: rne_div_def Let_def)
  show "rne_div p d \<le> p div d + 1" by (simp add: rne_div_def Let_def)
  have m: "0 \<le> p mod d" "p mod d < d" using assms by simp_all
  show "2 * (rne_div p d * d) \<le> 2 * p + d"
  proof (cases "2 * (p mod d) < d")
    case True
    then have "rne_div p d = p div d" by (simp add: rne_div_def Let_def)
    then have "rne_div p d * d \<le> p" using m eq by (metis add_increasing2 order_refl)
    then show ?thesis using assms by linarith
  next
    case False
    have "rne_div p d * d \<le> (p div d + 1) * d"
      using \<open>rne_div p d \<le> p div d + 1\<close> assms by (simp add: mult_right_mono)
    also have "\<dots> = p div d * d + d" by (simp add: algebra_simps)
    finally have "2 * (rne_div p d * d) \<le> 2 * (p div d * d) + 2 * d" by linarith
    moreover have "2 * p = 2 * (p div d * d) + 2 * (p mod d)" using eq by linarith
    ultimately show ?thesis using False by linarith
  qed
qed

lemma rne_div_exact:
  assumes "0 < d" "d dvd p"
  shows "rne_div p d * d = p"
  using assms by (simp add: rne_div_def Let_def)

lemma round_double_neg: "round_double (- j) = - round_double j"
  by (simp add: round_double_def Let_def sgn_if)

lemma round_double_exact:
  assumes "0 \<le> j" "2 ^ s dvd j" "j < 2 ^ (53 + s)"
  shows "round_double j = j"
proof (cases "j = 0")
  case True
  then show ?thesis by (simp add: round_double_def rne_div_def)
next
  case False
  then have pos: "0 < j" using assms by simp
  define k where "k = nat (bitlen j - 53)"
  have "2 ^ nat (bitlen j - 1) \<le> j" using bitlen_bounds [OF pos] by simp
  then have "(2::int) ^ nat (bitlen j - 1) < 2 ^ (53 + s)" using assms by linarith
  then have "nat (bitlen j - 1) < 53 + s" by (simp add: power_strict_increasing_iff)
  then have "k \<le> s" unfolding k_def by linarith
  then have "(2::int) ^ k dvd 2 ^ s" by (simp add: le_imp_power_dvd)
  then have "(2::int) ^ k dvd j" using assms(2) by (rule dvd_trans)
  then have "rne_div j (2 ^ k) * 2 ^ k = j" by (intro rne_div_exact) simp_all
  then show ?thesis using pos by (simp add: round_double_def Let_def k_def)
qed

lemma round_double_pos:
  assumes "0 < j"
  shows "0 < round_double j"
proof -
  define k where "k = nat (bitlen j - 53)"
  have lo: "2 ^ nat (bitlen j - 1) \<le> j" using bitlen_bounds [OF assms] by simp
  have "k \<le> nat (bitlen j - 1)" unfolding k_def by linarith
  then have "(2::int) ^ k \<le> 2 ^ nat (bitlen j - 1)" by (simp add: power_increasing)
  then have "(2::int) ^ k \<le> j" using lo by linarith
  then have "0 < j div 2 ^ k" by (simp add: pos_imp_zdiv_pos_iff)
  then have "1 \<le> j div 2 ^ k" by simp
  then have "1 \<le> rne_div j (2 ^ k)"
    using rne_div_bounds(1) [of "2 ^ k" j] by simp
  then have "0 < rne_div j (2 ^ k) * 2 ^ k" by simp
  then show ?thesis using assms by (simp add: round_double_def Let_def k_def)
qed

lemma round_double_nonneg:
  assumes "0 \<le> j"
  shows "0 \<le> round_double j"
  using round_double_pos [of j] assms by (cases "j = 0") (simp_all add: round_double_def rne_div_def)

text \<open>Rounding a positive value moves it by at most half a unit in the last place, gives a
  multiple of that unit, and never passes the next power of two.\<close>

lemma round_double_shape:
  assumes "0 < j" and k: "k = nat (bitlen j - 53)"
  shows "2 * round_double j \<le> 2 * j + 2 ^ k"
    and "2 ^ k dvd round_double j"
    and "round_double j \<le> 2 ^ (53 + k)"
proof -
  have r: "round_double j = rne_div j (2 ^ k) * 2 ^ k"
    using assms by (simp add: round_double_def Let_def)
  show "2 * round_double j \<le> 2 * j + 2 ^ k"
    using rne_div_bounds(3) [of "2 ^ k" j] r by simp
  show "2 ^ k dvd round_double j" using r by simp
  have hi: "j < 2 ^ nat (bitlen j)" using bitlen_bounds [OF assms(1)] by simp
  have "nat (bitlen j) \<le> 53 + k" using k by linarith
  then have "(2::int) ^ nat (bitlen j) \<le> 2 ^ (53 + k)" by (simp add: power_increasing)
  then have "j < 2 ^ 53 * 2 ^ k" using hi by (simp add: power_add)
  then have "j div 2 ^ k < 2 ^ 53"
  proof -
    have "j div 2 ^ k * 2 ^ k \<le> j" by (simp add: minus_mod_eq_div_mult [symmetric])
    then have "j div 2 ^ k * 2 ^ k < 2 ^ 53 * 2 ^ k" using \<open>j < 2 ^ 53 * 2 ^ k\<close> by linarith
    then show ?thesis by (simp add: mult_less_cancel_right)
  qed
  then have "rne_div j (2 ^ k) \<le> 2 ^ 53"
    using rne_div_bounds(2) [of "2 ^ k" j] by simp
  then have "rne_div j (2 ^ k) * 2 ^ k \<le> 2 ^ 53 * 2 ^ k" by (simp add: mult_right_mono)
  then show "round_double j \<le> 2 ^ (53 + k)" using r by (simp add: power_add)
qed

lemma pow2_less_D: "(2::int) ^ a < 2 ^ b \<Longrightarrow> a < b"
  by (simp add: power_strict_increasing_iff)

lemma pow2_mono: "a \<le> b \<Longrightarrow> (2::int) ^ a \<le> 2 ^ b"
  by (simp add: power_increasing)

lemma div_in_range:
  fixes z d lo hi :: int
  assumes "0 < d" "lo * d \<le> z" "z < hi * d"
  shows "lo \<le> z div d" and "z div d < hi"
proof -
  have eq: "z = z div d * d + z mod d" by simp
  have m: "0 \<le> z mod d" "z mod d < d" using assms(1) by simp_all
  have "z < z div d * d + d" using eq m(2) by linarith
  then have "lo * d < (z div d + 1) * d" using assms(2) by (simp add: algebra_simps)
  then have "lo < z div d + 1" using assms(1) by (simp add: mult_less_cancel_right)
  then show "lo \<le> z div d" by simp
  have "z div d * d \<le> z" using eq m(1) by linarith
  then have "z div d * d < hi * d" using assms(3) by linarith
  then show "z div d < hi" using assms(1) by (simp add: mult_less_cancel_right)
qed

lemma double_below_one:
  assumes "is_double x" "0 \<le> x" "x < double_unit"
  shows "x \<le> double_unit - 2 ^ 1021"
proof (cases "x < 2 ^ 1073")
  case True
  then show ?thesis by (simp add: double_unit_def)
next
  case False
  then have pos: "0 < x" by (smt (verit) zero_less_power)
  have "bitlen x = 1074"
  proof -
    have b: "2 ^ nat (bitlen x - 1) \<le> x" "x < 2 ^ nat (bitlen x)"
      using bitlen_bounds [OF pos] by simp_all
    have "(2::int) ^ 1073 < 2 ^ nat (bitlen x)" using False b(2) by linarith
    then have "1073 < nat (bitlen x)" by (rule pow2_less_D)
    moreover have "(2::int) ^ nat (bitlen x - 1) < 2 ^ 1074"
      using b(1) assms(3) by (simp add: double_unit_def)
    then have "nat (bitlen x - 1) < 1074" by (rule pow2_less_D)
    ultimately show ?thesis by linarith
  qed
  then have k: "(1021::nat) = nat (bitlen x - 53)" by simp
  have "2 ^ 1021 dvd round_double x" using round_double_shape(2) [OF pos k] .
  then have "2 ^ 1021 dvd x" using assms(1) by (simp add: is_double_def)
  then obtain c where c: "x = 2 ^ 1021 * c" by (auto simp: dvd_def)
  have "2 ^ 1021 * c < (2::int) ^ 1021 * 2 ^ 53"
    using assms(3) c by (simp add: double_unit_def)
  then have "c < 2 ^ 53" by (simp add: mult_less_cancel_left)
  then have "c \<le> 2 ^ 53 - 1" by simp
  then have "(2::int) ^ 1021 * c \<le> 2 ^ 1021 * (2 ^ 53 - 1)" by (simp add: mult_left_mono)
  then show ?thesis using c by (simp add: double_unit_def algebra_simps)
qed

lemma product_below_length:
  assumes x: "is_double x" "0 \<le> x" "x < double_unit" and n: "0 < n"
  shows "round_double (x * int n) < int n * double_unit"
proof (cases "x = 0")
  case True
  then show ?thesis using n by (simp add: round_double_def rne_div_def double_unit_def)
next
  case False
  define j where "j = x * int n"
  have pos: "0 < j" using False x n by (simp add: j_def)
  have xle: "x \<le> double_unit - 2 ^ 1021" using double_below_one [OF x] .
  have jle: "j \<le> int n * double_unit - int n * 2 ^ 1021"
  proof -
    have "x * int n \<le> (double_unit - 2 ^ 1021) * int n" using xle by (simp add: mult_right_mono)
    then show ?thesis by (simp add: j_def algebra_simps)
  qed
  define k where "k = nat (bitlen j - 53)"
  have sh: "2 * round_double j \<le> 2 * j + 2 ^ k"
    using round_double_shape(1) [OF pos k_def] .
  have "(2::int) ^ k < 2 * (int n * 2 ^ 1021)"
  proof (cases "k = 0")
    case True
    then show ?thesis using n by (smt (verit) mult_pos_pos of_nat_0_less_iff power_0 zero_less_numeral zero_less_power)
  next
    case False
    then have b: "bitlen j = int k + 53" unfolding k_def by linarith
    have "2 ^ nat (bitlen j - 1) \<le> j" using bitlen_bounds [OF pos] by simp
    moreover have "nat (bitlen j - 1) = k + 52" using b by simp
    ultimately have "(2::int) ^ (k + 52) \<le> j" by simp
    also have "j < int n * 2 ^ 1074" using jle n by (simp add: double_unit_def)
    finally have "(2::int) ^ k * 2 ^ 52 < (2 * (int n * 2 ^ 1021)) * 2 ^ 52"
      by (simp add: power_add)
    then show ?thesis by (simp only: mult_less_cancel_right) simp
  qed
  then have "2 * round_double j < 2 * (int n * double_unit)" using sh jle by linarith
  then show ?thesis by (simp add: j_def)
qed

lemma double_index_cases:
  assumes x: "is_double x" "0 \<le> x" "x < double_unit" and n: "0 < n" "n < 2 ^ 32"
  defines "i \<equiv> round_double (round_double (x * int n) - double_unit) div double_unit"
  shows "- 1 \<le> i \<and> i \<le> int n - 2 \<and> (i = - 1 \<longleftrightarrow> round_double (x * int n) < double_unit)"
proof -
  define y where "y = round_double (x * int n)"
  have U: "0 < double_unit" by (simp add: double_unit_def)
  have y0: "0 \<le> y" unfolding y_def using x n by (intro round_double_nonneg) simp
  have yn: "y < int n * double_unit" unfolding y_def using product_below_length [OF x n(1)] .
  have idx: "i = round_double (y - double_unit) div double_unit"
    by (simp add: i_def y_def)
  show ?thesis
  proof (cases "y < double_unit")
    case True
    define a where "a = double_unit - y"
    have a: "0 < a" "a \<le> double_unit" using True y0 by (simp_all add: a_def)
    have "round_double a \<le> double_unit"
    proof (cases "a = double_unit")
      case True
      have "round_double (2 ^ 1074) = (2::int) ^ 1074"
        by (rule round_double_exact [where s = 1074]) simp_all
      then show ?thesis using True by (simp add: double_unit_def)
    next
      case False
      then have lt: "a < 2 ^ 1074" using a by (simp add: double_unit_def)
      define k where "k = nat (bitlen a - 53)"
      show ?thesis
      proof (cases "k = 0")
        case True
        then have "bitlen a \<le> 53" unfolding k_def by linarith
        then have "nat (bitlen a) \<le> 53 + 0" by simp
        then have "(2::int) ^ nat (bitlen a) \<le> 2 ^ (53 + 0)" by (rule power_increasing) simp
        then have "a < 2 ^ (53 + 0)" using bitlen_bounds [OF a(1)] by linarith
        then have "round_double a = a" using a by (intro round_double_exact [where s = 0]) simp_all
        then show ?thesis using a by simp
      next
        case False
        have "2 ^ nat (bitlen a - 1) \<le> a" using bitlen_bounds [OF a(1)] by simp
        then have "(2::int) ^ nat (bitlen a - 1) < 2 ^ 1074" using lt by linarith
        then have "nat (bitlen a - 1) < 1074" by (rule pow2_less_D)
        then have "53 + k \<le> 1074" using False unfolding k_def by linarith
        then have "(2::int) ^ (53 + k) \<le> 2 ^ 1074" by (rule power_increasing) simp
        then show ?thesis using round_double_shape(3) [OF a(1) k_def] by (simp add: double_unit_def)
      qed
    qed
    moreover have "0 < round_double a" using a by (intro round_double_pos)
    moreover have "round_double (y - double_unit) = - round_double a"
      using round_double_neg [of a] by (simp add: a_def)
    ultimately have z: "- double_unit \<le> round_double (y - double_unit)"
      "round_double (y - double_unit) < 0" by simp_all
    have "round_double (y - double_unit) div double_unit = - 1"
      using div_in_range [of double_unit "- 1" "round_double (y - double_unit)" 0] z U by simp
    then show ?thesis using True n idx by (simp add: y_def [symmetric])
  next
    case False
    define k where "k = nat (bitlen (x * int n) - 53)"
    have jpos: "0 < x * int n"
    proof (rule ccontr)
      assume "\<not> 0 < x * int n"
      then have "x * int n = 0" using x n by (smt (verit) mult_nonneg_nonneg of_nat_0_le_iff)
      then have "y = 0" unfolding y_def by (simp only:) (simp add: round_double_def)
      then show False using False U by simp
    qed
    have sh: "2 ^ k dvd y" "y \<le> 2 ^ (53 + k)"
      unfolding y_def using round_double_shape(2,3) [OF jpos k_def] by simp_all
    have "x * int n < 2 ^ 1074 * 2 ^ 32"
    proof -
      have "x * int n < double_unit * int n" using x n by (simp add: mult_strict_right_mono)
      also have "\<dots> \<le> double_unit * 2 ^ 32"
        using n U by (intro mult_left_mono) (simp_all add: less_imp_le flip: of_nat_less_numeral_power_cancel_iff)
      finally show ?thesis by (simp add: double_unit_def)
    qed
    moreover have "2 ^ nat (bitlen (x * int n) - 1) \<le> x * int n"
      using bitlen_bounds [OF jpos] by simp
    ultimately have "(2::int) ^ nat (bitlen (x * int n) - 1) < 2 ^ (1074 + 32)"
      by (simp add: power_add)
    then have "nat (bitlen (x * int n) - 1) < 1074 + 32" by (rule pow2_less_D)
    then have "k \<le> 1074" unfolding k_def by linarith
    then have "(2::int) ^ k dvd 2 ^ 1074" by (rule le_imp_power_dvd)
    then have "2 ^ k dvd double_unit" by (simp only: double_unit_def)
    then have "2 ^ k dvd y - double_unit" using sh(1) by (rule dvd_diff [rotated])
    moreover have "y - double_unit < 2 ^ (53 + k)" using sh(2) U by linarith
    moreover have "0 \<le> y - double_unit" using False by simp
    ultimately have ex: "round_double (y - double_unit) = y - double_unit"
      by (intro round_double_exact [where s = k])
    have "(y - double_unit) div double_unit < int n - 1"
    proof -
      have "y - double_unit < (int n - 1) * double_unit" using yn by (simp add: algebra_simps)
      moreover have "0 * double_unit \<le> y - double_unit" using False by simp
      ultimately show ?thesis using U by (intro div_in_range(2) [where lo = 0])
    qed
    moreover have "0 \<le> (y - double_unit) div double_unit"
      using False U by (simp add: pos_imp_zdiv_nonneg_iff)
    ultimately show ?thesis using False idx ex by (simp add: y_def [symmetric])
  qed
qed

lemma rne_div_scale:
  assumes "0 < m"
  shows "rne_div (c * m) (d * m) = rne_div c d"
proof -
  have a: "(c * m) div (d * m) = c div d" using assms by simp
  have b: "(c * m) mod (d * m) = (c mod d) * m" using assms by simp
  have c: "(2 * ((c mod d) * m) < d * m) = (2 * (c mod d) < d)"
    using assms mult_less_cancel_right [of "2 * (c mod d)" m d] by (simp add: mult.assoc)
  have d: "(d * m < 2 * ((c mod d) * m)) = (d < 2 * (c mod d))"
    using assms mult_less_cancel_right [of d m "2 * (c mod d)"] by (simp add: mult.assoc)
  show ?thesis unfolding rne_div_def Let_def a b c d ..
qed

lemma round_double_scaled:
  assumes "0 < c" and "bitlen c = 53 + int t"
  shows "round_double (c * 2 ^ s) = rne_div c (2 ^ t) * 2 ^ t * 2 ^ s"
proof -
  have "bitlen (c * 2 ^ s) = 53 + int t + int s" using assms by simp
  then have k: "nat (bitlen \<bar>c * 2 ^ s\<bar> - 53) = t + s" using assms(1) by (simp add: abs_mult)
  have "rne_div (c * 2 ^ s) (2 ^ t * 2 ^ s) = rne_div c (2 ^ t)"
    by (rule rne_div_scale) simp
  moreover have "0 < c * 2 ^ s" and "\<bar>c\<bar> = c" using assms(1) by simp_all
  ultimately show ?thesis
    unfolding round_double_def Let_def k by (simp add: power_add abs_mult)
qed

lemma is_double_scaled:
  assumes "0 \<le> c" and "c < 2 ^ 53"
  shows "is_double (c * 2 ^ s)" and "is_double (- (c * 2 ^ s))"
proof -
  have "c * 2 ^ s < 2 ^ 53 * 2 ^ s" using assms(2) by simp
  then have "c * 2 ^ s < 2 ^ (53 + s)" by (simp add: power_add)
  moreover have "0 \<le> c * 2 ^ s" using assms(1) by simp
  ultimately have "round_double (c * 2 ^ s) = c * 2 ^ s"
    by (intro round_double_exact [where s = s]) simp_all
  then show "is_double (c * 2 ^ s)" and "is_double (- (c * 2 ^ s))"
    by (simp_all add: is_double_def round_double_neg)
qed

lemma div_eq_from_bounds:
  fixes z d i :: int
  assumes "0 < d" "i * d \<le> z" "z < (i + 1) * d"
  shows "z div d = i"
  using div_in_range [of d i z "i + 1"] assms by simp

lemma double_one_positive: "0 < double_unit"
  by (simp add: double_unit_def)

text \<open>
  C9, as stated, at the draw \<open>0.95\<close> (the double \<open>8556839292003942 * 2^-53\<close>) and an array of
  length 20: the product \<open>x * n\<close> is rounded to \<open>19\<close>, so the index that the code computes is
  \<open>18\<close>, while \<open>floor (x * n - 1)\<close> of the exact numbers is \<open>17\<close>. And for the one-element
  array holding \<open>undefined\<close> the index is \<open>-1\<close> and the result, \<open>undefined\<close>, is an element of
  the array.
\<close>

theorem randomFrom_exact_floor_counterexample:
  "is_double (8556839292003942 * 2 ^ 1021) \<and> 0 \<le> (8556839292003942 * 2 ^ 1021 :: int)
   \<and> 8556839292003942 * 2 ^ 1021 < double_unit
   \<and> randomIndex (8556839292003942 * 2 ^ 1021) (replicate 20 JNull) = 18
   \<and> \<lfloor>real_of_int (8556839292003942 * 2 ^ 1021) / real_of_int double_unit
        * real (length (replicate 20 JNull)) - 1\<rfloor> = 17
   \<and> is_double (2 ^ 1073) \<and> (2 ^ 1073 :: int) < double_unit
   \<and> randomIndex (2 ^ 1073) [JUndefined] = - 1
   \<and> randomFrom (2 ^ 1073) [JUndefined] = JUndefined
   \<and> randomFrom (2 ^ 1073) [JUndefined] \<in> set [JUndefined]"
proof -
  have a: "is_double (8556839292003942 * 2 ^ 1021)" by (rule is_double_scaled) simp_all
  have b: "is_double (1 * 2 ^ 1073)" "is_double (- (1 * 2 ^ 1073))"
    by (rule is_double_scaled; simp)+
  have "bitlen (171136785840078840 :: int) = 53 + int 5" by code_simp
  then have "round_double (171136785840078840 * 2 ^ 1021)
      = rne_div 171136785840078840 (2 ^ 5) * 2 ^ 5 * 2 ^ 1021"
    by (intro round_double_scaled) simp
  also have "rne_div 171136785840078840 (2 ^ 5) = 19 * 2 ^ 48" by (simp add: rne_div_def)
  also have "19 * 2 ^ 48 * 2 ^ 5 * 2 ^ 1021 = 19 * (2::int) ^ (48 + 5 + 1021)"
    by (simp only: power_add mult.assoc)
  finally have y: "round_double (8556839292003942 * 2 ^ 1021 * int (length (replicate 20 JNull)))
      = 19 * double_unit"
    by (simp add: double_unit_def mult.commute mult.left_commute)
  have "is_double (18 * 2 ^ 1074)" by (rule is_double_scaled) simp_all
  then have z: "round_double (19 * double_unit - double_unit) = 18 * double_unit"
    by (simp add: is_double_def double_unit_def)
  have c: "randomIndex (8556839292003942 * 2 ^ 1021) (replicate 20 JNull) = 18"
    unfolding randomIndex_def y z using double_one_positive by simp
  have y': "round_double (2 ^ 1073 * int (length [JUndefined])) = 2 ^ 1073"
    using b(1) by (simp add: is_double_def)
  have z': "round_double (2 ^ 1073 - double_unit) = - (2 ^ 1073)"
    using b(2) by (simp add: is_double_def double_unit_def)
  have "- (2 ^ 1073) div double_unit = - 1"
    by (rule div_eq_from_bounds) (simp_all add: double_unit_def)
  then have d: "randomIndex (2 ^ 1073) [JUndefined] = - 1"
    unfolding randomIndex_def y' z' .
  have e: "\<lfloor>real_of_int (8556839292003942 * 2 ^ 1021) / real_of_int double_unit
        * real (length (replicate 20 JNull)) - 1\<rfloor> = 17"
    by (simp add: double_unit_def)
  have f: "randomFrom (2 ^ 1073) [JUndefined] = JUndefined"
    using d by (simp add: randomFrom_def array_get_def)
  have g: "(0::int) \<le> 8556839292003942 * 2 ^ 1021" "8556839292003942 * 2 ^ 1021 < double_unit"
    "(2 ^ 1073 :: int) < double_unit"
    by (simp_all add: double_unit_def)
  show ?thesis using a b(1) c d e f g by simp
qed

text \<open>
  C9, amended. For a non-empty array \<open>a\<close> of length \<open>n\<close> and a draw \<open>x\<close>, a double in
  \<open>[0, 1)\<close>, the index is the floor of \<open>x * n - 1\<close> as computed in double arithmetic (the
  product rounded, then the difference rounded), and it lies in \<open>{-1, ..., n - 2}\<close>. The
  index of the last element is never computed, so the result is an element before the last
  or \<open>undefined\<close>. The index is \<open>-1\<close> exactly when the rounded product is below one; the
  result is then \<open>undefined\<close>, which is not the \<open>null\<close> of the empty array and is an element
  of \<open>a\<close> only if \<open>a\<close> itself holds \<open>undefined\<close>. Every other draw returns the element at the
  computed index.
\<close>

theorem randomFrom_index_range:
  assumes "a \<noteq> []" and "length a < 2 ^ 32"
    and "is_double x" and "0 \<le> x" and "x < double_unit"
  shows "randomIndex x a
           = round_double (round_double (x * int (length a)) - double_unit) div double_unit
       \<and> - 1 \<le> randomIndex x a \<and> randomIndex x a \<le> int (length a) - 2
       \<and> randomIndex x a \<noteq> int (length a) - 1
       \<and> ((randomIndex x a = - 1) = (round_double (x * int (length a)) < double_unit))
       \<and> (randomIndex x a = - 1 \<longrightarrow>
            randomFrom x a = JUndefined \<and> randomFrom x a \<noteq> JNull
            \<and> ((randomFrom x a \<in> set a) = (JUndefined \<in> set a)))
       \<and> (randomIndex x a \<noteq> - 1 \<longrightarrow>
            nat (randomIndex x a) < length a - 1
            \<and> randomFrom x a = a ! nat (randomIndex x a))
       \<and> (distinct a \<and> JUndefined \<notin> set a \<longrightarrow> randomFrom x a \<noteq> last a)"
proof -
  let ?i = "randomIndex x a"
  have n: "0 < length a" using assms(1) by simp
  have c1: "?i = round_double (round_double (x * int (length a)) - double_unit) div double_unit"
    by (simp only: randomIndex_def)
  have cases: "- 1 \<le> ?i \<and> ?i \<le> int (length a) - 2
      \<and> (?i = - 1 \<longleftrightarrow> round_double (x * int (length a)) < double_unit)"
    unfolding c1 using assms(3,4,5) n assms(2) by (rule double_index_cases)
  have lo: "- 1 \<le> ?i" and hi: "?i \<le> int (length a) - 2" using cases by simp_all
  have c6: "(?i = - 1) = (round_double (x * int (length a)) < double_unit)" using cases by simp
  have len: "length a \<noteq> 0" using assms(1) by simp
  have c4: "?i \<noteq> int (length a) - 1" using hi by simp
  have c7: "?i = - 1 \<longrightarrow>
      randomFrom x a = JUndefined \<and> randomFrom x a \<noteq> JNull
      \<and> ((randomFrom x a \<in> set a) = (JUndefined \<in> set a))"
    using len by (simp add: randomFrom_def array_get_def)
  have c8: "?i \<noteq> - 1 \<longrightarrow> nat ?i < length a - 1 \<and> randomFrom x a = a ! nat ?i"
  proof
    assume "?i \<noteq> - 1"
    then have "0 \<le> ?i" using lo by simp
    moreover from this have "nat ?i < length a - 1" using hi by linarith
    ultimately show "nat ?i < length a - 1 \<and> randomFrom x a = a ! nat ?i"
      using len hi by (simp add: randomFrom_def array_get_def)
  qed
  have c5: "distinct a \<and> JUndefined \<notin> set a \<longrightarrow> randomFrom x a \<noteq> last a"
  proof
    assume d: "distinct a \<and> JUndefined \<notin> set a"
    have l: "last a \<in> set a" using assms(1) by simp
    show "randomFrom x a \<noteq> last a"
    proof (cases "?i = - 1")
      case True
      then have "randomFrom x a = JUndefined" using c7 by simp
      then show ?thesis using d l by auto
    next
      case False
      then have r: "randomFrom x a = a ! nat ?i" and m: "nat ?i < length a - 1"
        using c8 by simp_all
      have "a ! nat ?i \<noteq> a ! (length a - 1)"
        using d m assms(1) by (simp add: nth_eq_iff_index_eq)
      then show ?thesis using r assms(1) by (simp add: last_conv_nth)
    qed
  qed
  show ?thesis using c1 lo hi c4 c5 c6 c7 c8 by blast
qed

theorem randomFrom_index_range_witness:
  "[JBool True, JBool False, JNull] \<noteq> [] \<and> length [JBool True, JBool False, JNull] < 2 ^ 32
   \<and> is_double (2 ^ 1072) \<and> 0 \<le> (2 ^ 1072 :: int) \<and> 2 ^ 1072 < double_unit
   \<and> randomIndex (2 ^ 1072) [JBool True, JBool False, JNull] = - 1
   \<and> randomFrom (2 ^ 1072) [JBool True, JBool False, JNull] = JUndefined
   \<and> is_double (8556839292003942 * 2 ^ 1021) \<and> 0 \<le> (8556839292003942 * 2 ^ 1021 :: int)
   \<and> 8556839292003942 * 2 ^ 1021 < double_unit
   \<and> randomIndex (8556839292003942 * 2 ^ 1021) [JBool True, JBool False, JNull] = 1
   \<and> randomFrom (8556839292003942 * 2 ^ 1021) [JBool True, JBool False, JNull] = JBool False
   \<and> randomFrom (8556839292003942 * 2 ^ 1021) [JBool True, JBool False, JNull]
        \<noteq> last [JBool True, JBool False, JNull]"
proof -
  let ?a = "[JBool True, JBool False, JNull]"
  have a: "is_double (1 * 2 ^ 1072)" by (rule is_double_scaled) simp_all
  have b: "is_double (8556839292003942 * 2 ^ 1021)" by (rule is_double_scaled) simp_all
  have "is_double (3 * 2 ^ 1072)" by (rule is_double_scaled) simp_all
  then have y: "round_double (2 ^ 1072 * int (length ?a)) = 3 * 2 ^ 1072"
    by (simp add: is_double_def mult.commute)
  have "is_double (- (1 * 2 ^ 1072))" by (rule is_double_scaled) simp_all
  then have z: "round_double (3 * 2 ^ 1072 - double_unit) = - (2 ^ 1072)"
    by (simp add: is_double_def double_unit_def)
  have "- (2 ^ 1072) div double_unit = - 1"
    by (rule div_eq_from_bounds) (simp_all add: double_unit_def)
  then have i: "randomIndex (2 ^ 1072) ?a = - 1"
    unfolding randomIndex_def y z .
  have "bitlen (25670517876011826 :: int) = 53 + int 2" by code_simp
  then have "round_double (25670517876011826 * 2 ^ 1021)
      = rne_div 25670517876011826 (2 ^ 2) * 2 ^ 2 * 2 ^ 1021"
    by (intro round_double_scaled) simp
  also have "rne_div 25670517876011826 (2 ^ 2) = 6417629469002956" by (simp add: rne_div_def)
  also have "6417629469002956 * 2 ^ 2 * 2 ^ 1021 = 6417629469002956 * (2::int) ^ (2 + 1021)"
    by (simp only: power_add mult.assoc)
  finally have y': "round_double (8556839292003942 * 2 ^ 1021 * int (length ?a))
      = 6417629469002956 * 2 ^ 1023"
    by (simp add: mult.commute mult.left_commute)
  have "is_double (4165829655317708 * 2 ^ 1023)" by (rule is_double_scaled) simp_all
  then have z': "round_double (6417629469002956 * 2 ^ 1023 - double_unit)
      = 4165829655317708 * 2 ^ 1023"
    by (simp add: is_double_def double_unit_def)
  have "4165829655317708 * 2 ^ 1023 div double_unit = 1"
    by (rule div_eq_from_bounds) (simp_all add: double_unit_def)
  then have j: "randomIndex (8556839292003942 * 2 ^ 1021) ?a = 1"
    unfolding randomIndex_def y' z' .
  have r: "(2 ^ 1072 :: int) < double_unit" "8556839292003942 * 2 ^ 1021 < double_unit"
    by (simp_all add: double_unit_def)
  show ?thesis
    using randomFrom_index_range [of ?a "2 ^ 1072"]
      randomFrom_index_range [of ?a "8556839292003942 * 2 ^ 1021"]
      a b i j r
    by simp
qed

text \<open>
  C10, as stated, at the limit \<open>0\<close>: the string \<open>a\<close> is longer than the limit, and the
  result is \<open>...\<close> alone, of length 3 and not \<open>0 + 2\<close>.
\<close>

theorem truncate_limit_zero_counterexample:
  "int (length ''a'') > 0 \<and> truncate 0 (Some ''a'') = Some ''...''
   \<and> int (length ''...'') \<noteq> 0 + 2"
  by (simp add: truncate_def substr_def)

text \<open>
  C10, amended. For every string \<open>str\<close> and integer limit \<open>n\<close>, \<open>truncate n str\<close> is \<open>str\<close>
  unchanged when its length is at most \<open>n\<close>, and otherwise the first \<open>n - 1\<close> characters of
  \<open>str\<close> (none when \<open>n \<le> 1\<close>) followed by \<open>...\<close>. For \<open>n \<ge> 1\<close> the result has length
  \<open>n + 2\<close>, more than the limit; for \<open>n \<le> 0\<close> it is \<open>...\<close> alone, of length 3.
\<close>

theorem truncate_result:
  "(int (length s) \<le> n \<longrightarrow> truncate n (Some s) = Some s)
   \<and> (n < int (length s) \<longrightarrow>
        truncate n (Some s) = Some (take (nat (n - 1)) s @ ''...'')
        \<and> (1 \<le> n \<longrightarrow> int (length (take (nat (n - 1)) s @ ''...'')) = n + 2)
        \<and> (n \<le> 0 \<longrightarrow> take (nat (n - 1)) s @ ''...'' = ''...''))"
proof -
  have a: "int (length s) \<le> n \<longrightarrow> truncate n (Some s) = Some s"
    by (simp add: truncate_def)
  have b: "n < int (length s) \<longrightarrow> truncate n (Some s) = Some (take (nat (n - 1)) s @ ''...'')"
    by (simp add: truncate_def substr_prefix)
  have c: "n < int (length s) \<longrightarrow> 1 \<le> n \<longrightarrow>
      int (length (take (nat (n - 1)) s @ ''...'')) = n + 2"
    by auto
  have d: "n \<le> 0 \<longrightarrow> take (nat (n - 1)) s @ ''...'' = ''...''"
    by simp
  show ?thesis using a b c d by blast
qed

theorem truncate_result_witness:
  "(3::int) < int (length ''abcdef'') \<and> (1::int) \<le> 3
   \<and> truncate 3 (Some ''abcdef'') = Some ''ab...''
   \<and> int (length ''ab...'') = 3 + 2
   \<and> int (length ''ab'') \<le> 3 \<and> truncate 3 (Some ''ab'') = Some ''ab''"
  using truncate_result [of "''abcdef''" 3] truncate_result [of "''ab''" 3] by simp

section \<open>Properties of JSON\<close>

subsection \<open>A serialized value is never empty\<close>

lemma digits_of_nonempty: "digits_of n \<noteq> []"
  by (subst digits_of.simps) simp

lemma QuoteJSONString_nonempty: "QuoteJSONString s \<noteq> []"
  by (simp add: QuoteJSONString_def)

lemma SerializeJSONProperty_nonempty:
  assumes "SerializeJSONProperty v = Some t"
  shows "t \<noteq> []"
  using assms
  by (cases v)
    (auto simp: Number_toString_def digits_of_nonempty QuoteJSONString_nonempty split: if_splits)

lemma stored_text_nonempty: "ToString (JSON_stringify r) \<noteq> []"
  by (auto simp: ToString_def JSON_stringify_def SerializeJSONProperty_nonempty split: option.splits)

subsection \<open>Numbers\<close>

lemma digit_char_props:
  assumes "0 \<le> d" and "d < 10"
  shows "is_digit (digit_char d)" and "digit_val (digit_char d) = d"
    and "(digit_char d = CHR ''0'') = (d = 0)"
proof -
  have "(48 + d) mod 256 = 48 + d"
    using assms by simp
  then have v: "(of_char (digit_char d) :: int) = 48 + d"
    by (simp add: digit_char_def)
  show "is_digit (digit_char d)" using v assms by (simp add: is_digit_def)
  show "digit_val (digit_char d) = d" using v by (simp add: digit_val_def)
  have "(of_char (CHR ''0'') :: int) = 48" by simp
  then have "(digit_char d = CHR ''0'') = ((of_char (digit_char d) :: int) = 48)"
    by (metis of_char_eq_iff)
  then show "(digit_char d = CHR ''0'') = (d = 0)" using v by simp
qed

lemma is_digit_not_special:
  assumes "is_digit c"
  shows "c \<noteq> CHR ''-''" and "c \<noteq> CHR ''.''" and "c \<noteq> CHR ''e''" and "c \<noteq> CHR ''E''"
    and "c \<noteq> CHR '',''" and "c \<noteq> CHR '']''" and "c \<noteq> CHR ''}''" and "\<not> is_ws c"
    and "c \<noteq> CHR ''[''" and "c \<noteq> CHR ''{''" and "c \<noteq> dquote"
    and "c \<noteq> CHR ''n''" and "c \<noteq> CHR ''t''" and "c \<noteq> CHR ''f''"
  using assms by (auto simp: is_digit_def is_ws_def dquote_def)

lemma int_of_digits_snoc:
  "int_of_digits (ds @ [c]) = 10 * int_of_digits ds + digit_val c"
  by (simp add: int_of_digits_def)

lemma digits_of_props:
  assumes "0 \<le> n"
  shows "list_all is_digit (digits_of n) \<and> int_of_digits (digits_of n) = n
       \<and> digits_of n \<noteq> [] \<and> (hd (digits_of n) = CHR ''0'' \<longrightarrow> n = 0)"
  using assms
proof (induction n rule: digits_of.induct)
  case (1 n)
  show ?case
  proof (cases "n < 10")
    case True
    then have "digits_of n = [digit_char n]" by (subst digits_of.simps) simp
    then show ?thesis
      using digit_char_props [of n] True "1.prems" by (simp add: int_of_digits_def)
  next
    case False
    then have eq: "digits_of n = digits_of (n div 10) @ [digit_char (n mod 10)]"
      by (subst digits_of.simps) simp
    have q: "0 \<le> n div 10" "0 < n div 10" using False by auto
    have ih: "list_all is_digit (digits_of (n div 10))
        \<and> int_of_digits (digits_of (n div 10)) = n div 10
        \<and> digits_of (n div 10) \<noteq> [] \<and> (hd (digits_of (n div 10)) = CHR ''0'' \<longrightarrow> n div 10 = 0)"
      using "1.IH" False q(1) by simp
    have m: "0 \<le> n mod 10" "n mod 10 < 10" by auto
    show ?thesis
      using ih q(2) digit_char_props [OF m]
      by (simp add: eq int_of_digits_snoc)
  qed
qed

lemma takeWhile_digits:
  assumes "list_all is_digit ds" and "rest = [] \<or> \<not> is_digit (hd rest)"
  shows "takeWhile is_digit (ds @ rest) = ds" and "dropWhile is_digit (ds @ rest) = rest"
  using assms by (induction ds) (auto simp: neq_Nil_conv takeWhile_eq_Nil_iff dropWhile_eq_self_iff)

lemma parse_number_digits:
  assumes "0 \<le> n" and "n \<le> max_safe_integer"
    and "rest = [] \<or> (\<not> is_digit (hd rest) \<and> hd rest \<noteq> CHR ''.'' \<and> hd rest \<noteq> CHR ''e''
          \<and> hd rest \<noteq> CHR ''E'')"
  shows "parse_number (digits_of n @ rest) = Parsed (JNum n) rest"
  and "parse_number (CHR ''-'' # digits_of n @ rest) = Parsed (JNum (- n)) rest"
proof -
  have p: "list_all is_digit (digits_of n)" "int_of_digits (digits_of n) = n"
    "digits_of n \<noteq> []" "hd (digits_of n) = CHR ''0'' \<longrightarrow> n = 0"
    using digits_of_props [OF assms(1)] by simp_all
  obtain c r where cr: "digits_of n = c # r" using p(3) by (cases "digits_of n") auto
  have c: "is_digit c" using p(1) cr by simp
  have zero: "c = CHR ''0'' \<Longrightarrow> r = []"
  proof -
    assume "c = CHR ''0''"
    then have "n = 0" using p(4) cr by simp
    then have "digits_of n = [digit_char 0]" by (subst digits_of.simps) simp
    then show "r = []" using cr by simp
  qed
  have tw: "takeWhile is_digit (digits_of n @ rest) = digits_of n"
    "dropWhile is_digit (digits_of n @ rest) = rest"
    using takeWhile_digits [OF p(1), of rest] assms(3) by auto
  have nohd: "(case rest of [] \<Rightarrow> False
      | d # _ \<Rightarrow> d = CHR ''.'' \<or> d = CHR ''e'' \<or> d = CHR ''E'') = False"
    using assms(3) by (cases rest) auto
  have neg: "c \<noteq> CHR ''-''" using c by (rule is_digit_not_special)
  show "parse_number (digits_of n @ rest) = Parsed (JNum n) rest"
    using tw nohd neg c zero p(2) assms(2)
    by (auto simp: parse_number_def Let_def cr)
  show "parse_number (CHR ''-'' # digits_of n @ rest) = Parsed (JNum (- n)) rest"
    using tw nohd neg c zero p(2) assms(2)
    by (auto simp: parse_number_def Let_def cr)
qed

lemma parse_number_Number_toString:
  assumes "\<bar>n\<bar> \<le> max_safe_integer"
    and "rest = [] \<or> (\<not> is_digit (hd rest) \<and> hd rest \<noteq> CHR ''.'' \<and> hd rest \<noteq> CHR ''e''
          \<and> hd rest \<noteq> CHR ''E'')"
  shows "parse_number (Number_toString n @ rest) = Parsed (JNum n) rest"
proof (cases "n < 0")
  case True
  then have "0 \<le> - n" "- n \<le> max_safe_integer" using assms(1) by auto
  then have "parse_number (CHR ''-'' # digits_of (- n) @ rest) = Parsed (JNum (- (- n))) rest"
    using assms(2) by (rule parse_number_digits(2))
  then show ?thesis using True by (simp add: Number_toString_def)
next
  case False
  then have "0 \<le> n" "n \<le> max_safe_integer" using assms(1) by auto
  then have "parse_number (digits_of n @ rest) = Parsed (JNum n) rest"
    using assms(2) by (rule parse_number_digits(1))
  then show ?thesis using False by (simp add: Number_toString_def)
qed

lemma Number_toString_head:
  "\<exists>c t. Number_toString n = c # t \<and> (c = CHR ''-'' \<or> is_digit c)"
proof (cases "n < 0")
  case True
  then show ?thesis by (simp add: Number_toString_def)
next
  case False
  then have "0 \<le> n" by simp
  from digits_of_props [OF this] show ?thesis
    using False by (cases "digits_of n") (auto simp: Number_toString_def)
qed

subsection \<open>Strings\<close>

lemma hexval_hexdigit:
  assumes "d < 16"
  shows "hexval (hexdigit d) = Some d"
proof -
  have "d = 0 \<or> d = 1 \<or> d = 2 \<or> d = 3 \<or> d = 4 \<or> d = 5 \<or> d = 6 \<or> d = 7 \<or> d = 8
      \<or> d = 9 \<or> d = 10 \<or> d = 11 \<or> d = 12 \<or> d = 13 \<or> d = 14 \<or> d = 15"
    using assms by arith
  then show ?thesis
    by (elim disjE) (simp_all add: hexdigit_def hexval_def)
qed

lemma hex4_control:
  assumes "n < 32"
  shows "hex4 (CHR ''0'') (CHR ''0'') (hexdigit (n div 16)) (hexdigit (n mod 16)) = Some n"
proof -
  have a: "hexval (hexdigit (n div 16)) = Some (n div 16)"
    using assms by (intro hexval_hexdigit) auto
  have b: "hexval (hexdigit (n mod 16)) = Some (n mod 16)"
    by (intro hexval_hexdigit) auto
  have z: "hexval (CHR ''0'') = Some 0" by (simp add: hexval_def)
  show ?thesis by (simp add: hex4_def a b z)
qed

lemma parse_chars_two_char_escape:
  assumes "unescape e = Some c" and "e \<noteq> CHR ''u''"
  shows "parse_chars (backslash # e # rest) = map_parsed ((#) c) (parse_chars rest)"
  using assms by (simp add: dquote_def backslash_def)

lemma parse_chars_plain:
  assumes "c \<noteq> dquote" and "c \<noteq> backslash" and "\<not> (of_char c :: nat) < 32"
  shows "parse_chars (c # rest) = map_parsed ((#) c) (parse_chars rest)"
  using assms by simp

lemma parse_chars_unicode_escape:
  assumes "(of_char c :: nat) < 32"
  shows "parse_chars (backslash # CHR ''u'' # CHR ''0'' # CHR ''0''
      # hexdigit (of_char c div 16) # hexdigit (of_char c mod 16) # rest)
    = map_parsed ((#) c) (parse_chars rest)"
proof -
  have "hex4 (CHR ''0'') (CHR ''0'') (hexdigit (of_char c div 16)) (hexdigit (of_char c mod 16))
      = Some (of_char c)"
    using assms by (rule hex4_control)
  then show ?thesis by (simp add: dquote_def backslash_def)
qed

lemma parse_chars_escape:
  "parse_chars (escape_char c @ rest) = map_parsed ((#) c) (parse_chars rest)"
proof -
  consider "c = CHR 0x08" | "c = CHR 0x09" | "c = CHR 0x0A" | "c = CHR 0x0C" | "c = CHR 0x0D"
    | "c = dquote" | "c = backslash"
    | "c \<noteq> CHR 0x08" "c \<noteq> CHR 0x09" "c \<noteq> CHR 0x0A" "c \<noteq> CHR 0x0C" "c \<noteq> CHR 0x0D"
      "c \<noteq> dquote" "c \<noteq> backslash" "(of_char c :: nat) < 32"
    | "c \<noteq> CHR 0x08" "c \<noteq> CHR 0x09" "c \<noteq> CHR 0x0A" "c \<noteq> CHR 0x0C" "c \<noteq> CHR 0x0D"
      "c \<noteq> dquote" "c \<noteq> backslash" "\<not> (of_char c :: nat) < 32"
    by blast
  then show ?thesis
  proof cases
    case 1
    have "unescape (CHR ''b'') = Some c" by (simp add: 1 unescape_def dquote_def backslash_def)
    then have "parse_chars (backslash # CHR ''b'' # rest) = map_parsed ((#) c) (parse_chars rest)"
      by (rule parse_chars_two_char_escape) simp
    then show ?thesis by (simp add: 1 escape_char_def)
  next
    case 2
    have "unescape (CHR ''t'') = Some c" by (simp add: 2 unescape_def dquote_def backslash_def)
    then have "parse_chars (backslash # CHR ''t'' # rest) = map_parsed ((#) c) (parse_chars rest)"
      by (rule parse_chars_two_char_escape) simp
    then show ?thesis by (simp add: 2 escape_char_def)
  next
    case 3
    have "unescape (CHR ''n'') = Some c" by (simp add: 3 unescape_def dquote_def backslash_def)
    then have "parse_chars (backslash # CHR ''n'' # rest) = map_parsed ((#) c) (parse_chars rest)"
      by (rule parse_chars_two_char_escape) simp
    then show ?thesis by (simp add: 3 escape_char_def)
  next
    case 4
    have "unescape (CHR ''f'') = Some c" by (simp add: 4 unescape_def dquote_def backslash_def)
    then have "parse_chars (backslash # CHR ''f'' # rest) = map_parsed ((#) c) (parse_chars rest)"
      by (rule parse_chars_two_char_escape) simp
    then show ?thesis by (simp add: 4 escape_char_def)
  next
    case 5
    have "unescape (CHR ''r'') = Some c" by (simp add: 5 unescape_def dquote_def backslash_def)
    then have "parse_chars (backslash # CHR ''r'' # rest) = map_parsed ((#) c) (parse_chars rest)"
      by (rule parse_chars_two_char_escape) simp
    then show ?thesis by (simp add: 5 escape_char_def)
  next
    case 6
    have "unescape dquote = Some c" by (simp add: 6 unescape_def)
    then have "parse_chars (backslash # dquote # rest) = map_parsed ((#) c) (parse_chars rest)"
      by (rule parse_chars_two_char_escape) (simp add: dquote_def)
    then show ?thesis by (simp add: 6 escape_char_def dquote_def)
  next
    case 7
    have "unescape backslash = Some c" by (simp add: 7 unescape_def dquote_def backslash_def)
    then have "parse_chars (backslash # backslash # rest) = map_parsed ((#) c) (parse_chars rest)"
      by (rule parse_chars_two_char_escape) (simp add: backslash_def)
    then show ?thesis by (simp add: 7 escape_char_def dquote_def backslash_def)
  next
    case 8
    have e: "escape_char c = [backslash, CHR ''u'', CHR ''0'', CHR ''0'',
        hexdigit (of_char c div 16), hexdigit (of_char c mod 16)]"
      using 8 by (simp add: escape_char_def)
    show ?thesis unfolding e using parse_chars_unicode_escape [OF 8(8), of rest] by simp
  next
    case 9
    have e: "escape_char c = [c]" using 9 by (simp add: escape_char_def)
    show ?thesis unfolding e using parse_chars_plain [OF 9(6,7,8), of rest] by simp
  qed
qed

lemma parse_chars_quoted:
  "parse_chars (concat (map escape_char s) @ dquote # rest) = Parsed s rest"
proof (induction s)
  case Nil
  then show ?case by simp
next
  case (Cons c s)
  have "parse_chars (escape_char c @ (concat (map escape_char s) @ dquote # rest))
      = map_parsed ((#) c) (parse_chars (concat (map escape_char s) @ dquote # rest))"
    by (rule parse_chars_escape)
  then show ?case using Cons.IH by simp
qed

lemma QuoteJSONString_append:
  "QuoteJSONString s @ rest = dquote # concat (map escape_char s) @ dquote # rest"
  by (simp add: QuoteJSONString_def)

subsection \<open>Parsing a serialized value\<close>

lemma skip_ws_head:
  assumes "\<not> is_ws c"
  shows "skip_ws (c # r) = c # r"
  using assms by (simp add: skip_ws_def)

lemma skip_ws_Nil: "skip_ws [] = []"
  by (simp add: skip_ws_def)

lemma join_Cons:
  "join (x # xs) = (if xs = [] then x else x @ CHR '','' # join xs)"
  by (cases xs) simp_all

lemma parse_value_null:
  "parse_value (Suc fuel) (''null'' @ rest) = Parsed JNull rest"
  by (simp add: skip_ws_def is_ws_def dquote_def parse_literal_def)

lemma parse_value_true:
  "parse_value (Suc fuel) (''true'' @ rest) = Parsed (JBool True) rest"
  by (simp add: skip_ws_def is_ws_def dquote_def parse_literal_def)

lemma parse_value_false:
  "parse_value (Suc fuel) (''false'' @ rest) = Parsed (JBool False) rest"
  by (simp add: skip_ws_def is_ws_def dquote_def parse_literal_def)

lemma parse_value_string:
  "parse_value (Suc fuel) (QuoteJSONString s @ rest) = Parsed (JStr s) rest"
proof -
  have "skip_ws (dquote # concat (map escape_char s) @ dquote # rest)
      = dquote # concat (map escape_char s) @ dquote # rest"
    by (rule skip_ws_head) (simp add: is_ws_def dquote_def)
  then show ?thesis
    by (simp add: QuoteJSONString_append parse_chars_quoted) (simp add: dquote_def)
qed

lemma number_head:
  assumes "c = CHR ''-'' \<or> is_digit c"
  shows "\<not> is_ws c" and "c \<noteq> CHR ''[''" and "c \<noteq> CHR ''{''" and "c \<noteq> dquote"
    and "c \<noteq> CHR ''n''" and "c \<noteq> CHR ''t''" and "c \<noteq> CHR ''f''"
    and "c \<noteq> CHR '']''" and "c \<noteq> CHR ''}''"
  using assms by (auto simp: is_digit_def is_ws_def dquote_def)

lemma parse_value_number:
  assumes "\<bar>n\<bar> \<le> max_safe_integer"
    and "rest = [] \<or> (\<not> is_digit (hd rest) \<and> hd rest \<noteq> CHR ''.'' \<and> hd rest \<noteq> CHR ''e''
          \<and> hd rest \<noteq> CHR ''E'')"
  shows "parse_value (Suc fuel) (Number_toString n @ rest) = Parsed (JNum n) rest"
proof -
  obtain c t where ct: "Number_toString n = c # t" and c: "c = CHR ''-'' \<or> is_digit c"
    using Number_toString_head [of n] by blast
  have nws: "\<not> is_ws c" using c by (rule number_head)
  have sk: "skip_ws (c # t @ rest) = c # t @ rest" using nws by (rule skip_ws_head)
  have ne: "c \<noteq> CHR ''[''" "c \<noteq> CHR ''{''" "c \<noteq> dquote" "c \<noteq> CHR ''n''" "c \<noteq> CHR ''t''"
    "c \<noteq> CHR ''f''"
    using number_head [OF c] by blast+
  have "parse_number (c # t @ rest) = Parsed (JNum n) rest"
    using parse_number_Number_toString [OF assms] by (simp add: ct)
  then show ?thesis using sk ne c by (simp add: ct)
qed

lemma delimited_simps:
  "delimited []" "delimited (CHR '','' # r)" "delimited (CHR '']'' # r)" "delimited (CHR ''}'' # r)"
  by (simp_all add: delimited_def)

lemma delimited_number:
  assumes "delimited rest"
  shows "rest = [] \<or> (\<not> is_digit (hd rest) \<and> hd rest \<noteq> CHR ''.'' \<and> hd rest \<noteq> CHR ''e''
          \<and> hd rest \<noteq> CHR ''E'')"
  using assms by (cases rest) (auto simp: delimited_def is_digit_def)

lemma serialize_elements_Cons:
  "serialize_elements (v # vs) = element_text v # serialize_elements vs"
  by (simp add: element_text_def)

lemma Serialize_None_iff: "(SerializeJSONProperty v = None) = (v = JUndefined)"
  by (cases v) simp_all

lemma serialized_head:
  assumes "SerializeJSONProperty v = Some t"
  shows "\<exists>c t'. t = c # t' \<and> \<not> is_ws c \<and> c \<noteq> CHR '']'' \<and> c \<noteq> CHR ''}''"
proof (cases v)
  case (JNum n)
  obtain c t' where ct: "Number_toString n = c # t'" and c: "c = CHR ''-'' \<or> is_digit c"
    using Number_toString_head [of n] by blast
  have "t = c # t'" using assms JNum ct by simp
  then show ?thesis using number_head [OF c] by blast
qed (use assms in \<open>auto simp: is_ws_def QuoteJSONString_def dquote_def\<close>)

lemma element_text_head:
  "\<exists>c t'. element_text v = c # t' \<and> \<not> is_ws c \<and> c \<noteq> CHR '']'' \<and> c \<noteq> CHR ''}''"
proof (cases "SerializeJSONProperty v")
  case None
  then show ?thesis by (simp add: element_text_def is_ws_def)
next
  case (Some t)
  then show ?thesis using serialized_head [OF Some] by (simp add: element_text_def)
qed

lemma element_parse:
  assumes "\<And>t rest fuel. SerializeJSONProperty v = Some t \<Longrightarrow> delimited rest
      \<Longrightarrow> 2 * length (t @ rest) + 1 \<le> fuel
      \<Longrightarrow> parse_value fuel (t @ rest) = Parsed (json_image v) rest"
    and "delimited rest" and "2 * length (element_text v @ rest) + 1 \<le> fuel"
  shows "parse_value fuel (element_text v @ rest)
       = Parsed (if v = JUndefined then JNull else json_image v) rest"
proof (cases "v = JUndefined")
  case True
  obtain f where f: "fuel = Suc f" using assms(3) by (cases fuel) auto
  show ?thesis unfolding f using True parse_value_null [of f rest]
    by (simp add: element_text_def)
next
  case False
  then obtain t where t: "SerializeJSONProperty v = Some t"
    using Serialize_None_iff [of v] by (cases "SerializeJSONProperty v") auto
  then have e: "element_text v = t" by (simp add: element_text_def)
  show ?thesis using assms(1) [OF t assms(2)] assms(3) False by (simp add: e)
qed

lemma elements_step:
  assumes pv: "\<And>rest fuel. delimited rest \<Longrightarrow> 2 * length (element_text v @ rest) + 1 \<le> fuel
      \<Longrightarrow> parse_value fuel (element_text v @ rest) = Parsed ev rest"
    and q: "\<And>rest fuel. vs \<noteq> [] \<Longrightarrow>
        2 * length (join (serialize_elements vs) @ CHR '']'' # rest) + 2 \<le> fuel
      \<Longrightarrow> parse_elements fuel (join (serialize_elements vs) @ CHR '']'' # rest)
          = Parsed evs rest"
    and emp: "vs = [] \<Longrightarrow> evs = []"
    and fuel: "2 * length (join (serialize_elements (v # vs)) @ CHR '']'' # rest) + 2 \<le> fuel"
  shows "parse_elements fuel (join (serialize_elements (v # vs)) @ CHR '']'' # rest)
       = Parsed (ev # evs) rest"
proof -
  obtain f where f: "fuel = Suc f" using fuel by (cases fuel) auto
  show ?thesis
  proof (cases "vs = []")
    case True
    have shape: "join (serialize_elements (v # vs)) @ CHR '']'' # rest
        = element_text v @ CHR '']'' # rest"
      using True by (simp add: element_text_def)
    have "2 * length (element_text v @ CHR '']'' # rest) + 2 \<le> fuel"
      using fuel by (simp only: shape)
    then have "2 * length (element_text v @ CHR '']'' # rest) + 1 \<le> f"
      using f by simp
    then have pv': "parse_value f (element_text v @ CHR '']'' # rest) = Parsed ev (CHR '']'' # rest)"
      by (intro pv delimited_simps)
    have sk: "skip_ws (CHR '']'' # rest) = CHR '']'' # rest"
      by (rule skip_ws_head) (simp add: is_ws_def)
    show ?thesis unfolding shape f using pv' sk emp [OF True] by simp
  next
    case False
    let ?more = "join (serialize_elements vs) @ CHR '']'' # rest"
    have shape: "join (serialize_elements (v # vs)) @ CHR '']'' # rest
        = element_text v @ CHR '','' # ?more"
      using False by (cases vs) (simp_all add: element_text_def)
    obtain c t' where nonempty: "element_text v = c # t'"
      using element_text_head [of v] by blast
    have fuel': "2 * length (element_text v @ CHR '','' # ?more) + 2 \<le> fuel"
      using fuel by (simp only: shape)
    then have "2 * length (element_text v @ CHR '','' # ?more) + 1 \<le> f"
      using f by simp
    then have pv': "parse_value f (element_text v @ CHR '','' # ?more)
        = Parsed ev (CHR '','' # ?more)"
      by (intro pv delimited_simps)
    have sk: "skip_ws (CHR '','' # ?more) = CHR '','' # ?more"
      by (rule skip_ws_head) (simp add: is_ws_def)
    have "2 * length ?more + 2 \<le> f" using fuel' f by (simp add: nonempty)
    then have q': "parse_elements f ?more = Parsed evs rest"
      using False by (intro q)
    show ?thesis unfolding shape f using pv' sk q' by simp
  qed
qed

lemma serialize_elements_Nil_iff: "(serialize_elements vs = []) = (vs = [])"
  by (cases vs) simp_all

lemma join_elements_head:
  assumes "vs \<noteq> []"
  shows "\<exists>c t'. join (serialize_elements vs) = c # t' \<and> \<not> is_ws c \<and> c \<noteq> CHR '']''"
proof -
  obtain v vs' where vs: "vs = v # vs'" using assms by (cases vs) auto
  obtain c t' where h: "element_text v = c # t'" "\<not> is_ws c" "c \<noteq> CHR '']''"
    using element_text_head [of v] by blast
  show ?thesis
    using h by (simp only: vs serialize_elements_Cons join_Cons) (simp split: if_splits)
qed

lemma array_step:
  assumes q: "\<And>rest fuel. vs \<noteq> [] \<Longrightarrow>
        2 * length (join (serialize_elements vs) @ CHR '']'' # rest) + 2 \<le> fuel
      \<Longrightarrow> parse_elements fuel (join (serialize_elements vs) @ CHR '']'' # rest)
          = Parsed evs rest"
    and emp: "vs = [] \<Longrightarrow> evs = []"
    and fuel: "2 * length (CHR ''['' # join (serialize_elements vs) @ CHR '']'' # rest) + 1 \<le> fuel"
  shows "parse_value fuel (CHR ''['' # join (serialize_elements vs) @ CHR '']'' # rest)
       = Parsed (JArr evs) rest"
proof -
  obtain f where f: "fuel = Suc f" using fuel by (cases fuel) auto
  let ?r = "join (serialize_elements vs) @ CHR '']'' # rest"
  have sk: "skip_ws (CHR ''['' # ?r) = CHR ''['' # ?r"
    by (rule skip_ws_head) (simp add: is_ws_def)
  show ?thesis
  proof (cases "vs = []")
    case True
    have sk2: "skip_ws (CHR '']'' # rest) = CHR '']'' # rest"
      by (rule skip_ws_head) (simp add: is_ws_def)
    show ?thesis unfolding f using True sk2 emp [OF True]
      by (simp add: skip_ws_head is_ws_def)
  next
    case False
    obtain c t' where h: "join (serialize_elements vs) = c # t'" "\<not> is_ws c" "c \<noteq> CHR '']''"
      using join_elements_head [OF False] by blast
    have sk2: "skip_ws ?r = c # t' @ CHR '']'' # rest"
      using h(2) by (simp add: h(1) skip_ws_head)
    have "2 * length ?r + 2 \<le> f" using fuel f by simp
    then have q': "parse_elements f ?r = Parsed evs rest" using False by (intro q)
    show ?thesis unfolding f using sk sk2 h(3) q' by simp
  qed
qed

lemma serialize_members_Nil_image:
  "serialize_members kvs = [] \<Longrightarrow> image_members kvs = []"
proof (induction kvs)
  case Nil
  then show ?case by simp
next
  case (Cons kv kvs)
  obtain k v where kv: "kv = (k, v)" by (cases kv)
  show ?case
    using Cons Serialize_None_iff [of v]
    by (cases "SerializeJSONProperty v") (auto simp: kv)
qed

lemma members_step:
  assumes pv: "\<And>rest fuel. delimited rest \<Longrightarrow> 2 * length (t @ rest) + 1 \<le> fuel
      \<Longrightarrow> parse_value fuel (t @ rest) = Parsed ev rest"
    and r: "\<And>rest fuel. ms \<noteq> [] \<Longrightarrow>
        2 * length (join ms @ CHR ''}'' # rest) + 2 \<le> fuel
      \<Longrightarrow> parse_members fuel (join ms @ CHR ''}'' # rest) = Parsed ekvs rest"
    and emp: "ms = [] \<Longrightarrow> ekvs = []"
    and t: "t \<noteq> []"
    and fuel: "2 * length (join ((QuoteJSONString k @ CHR '':'' # t) # ms) @ CHR ''}'' # rest) + 2
        \<le> fuel"
  shows "parse_members fuel (join ((QuoteJSONString k @ CHR '':'' # t) # ms) @ CHR ''}'' # rest)
       = Parsed ((k, ev) # ekvs) rest"
proof -
  obtain f where f: "fuel = Suc f" using fuel by (cases fuel) auto
  let ?tail = "if ms = [] then CHR ''}'' # rest else CHR '','' # join ms @ CHR ''}'' # rest"
  let ?body = "concat (map escape_char k) @ dquote # CHR '':'' # t @ ?tail"
  have shape: "join ((QuoteJSONString k @ CHR '':'' # t) # ms) @ CHR ''}'' # rest
      = dquote # ?body"
    by (simp add: join_Cons QuoteJSONString_def)
  have fuel': "2 * length (dquote # ?body) + 2 \<le> fuel" using fuel by (simp only: shape)
  have sk: "skip_ws (dquote # ?body) = dquote # ?body"
    by (rule skip_ws_head) (simp add: is_ws_def dquote_def)
  have key: "parse_chars ?body = Parsed k (CHR '':'' # t @ ?tail)"
    by (rule parse_chars_quoted)
  have sk1: "skip_ws (CHR '':'' # t @ ?tail) = CHR '':'' # t @ ?tail"
    by (rule skip_ws_head) (simp add: is_ws_def)
  have dl: "delimited ?tail" by (simp add: delimited_simps)
  have "2 * length (t @ ?tail) + 1 \<le> f" using fuel' f by simp
  then have val: "parse_value f (t @ ?tail) = Parsed ev ?tail" using dl by (intro pv)
  have sk3: "skip_ws ?tail = ?tail"
    by (simp add: skip_ws_head is_ws_def)
  have after: "(case ?tail of [] \<Rightarrow> Failed SyntaxError
      | c3 # r4 \<Rightarrow>
          if c3 = CHR '','' then map_parsed ((#) (k, ev)) (parse_members f r4)
          else if c3 = CHR ''}'' then Parsed [(k, ev)] r4
          else Failed SyntaxError) = Parsed ((k, ev) # ekvs) rest"
  proof (cases "ms = []")
    case True
    then show ?thesis using emp by simp
  next
    case False
    have "2 * length (join ms @ CHR ''}'' # rest) + 2 \<le> f"
      using fuel' f False t by (cases t) simp_all
    then have "parse_members f (join ms @ CHR ''}'' # rest) = Parsed ekvs rest"
      using False by (intro r)
    then show ?thesis using False by simp
  qed
  have "parse_members (Suc f) (dquote # ?body) = Parsed ((k, ev) # ekvs) rest"
    by (simp only: parse_members.simps sk list.case if_False not_not refl if_True key
        parsed.case sk1 val sk3 after simp_thms)
  then show ?thesis unfolding f by (simp only: shape)
qed

lemma update_fresh:
  assumes "k \<notin> fst ` set al"
  shows "AList.update k v al = al @ [(k, v)]"
  using assms by (induction al) auto

lemma foldl_update_distinct:
  assumes "distinct (map fst (acc @ kvs))"
  shows "foldl (\<lambda>acc (k, v). AList.update k v acc) acc kvs = acc @ kvs"
  using assms
proof (induction kvs arbitrary: acc)
  case Nil
  then show ?case by simp
next
  case (Cons kv kvs)
  obtain k v where kv: "kv = (k, v)" by (cases kv)
  have fresh: "k \<notin> fst ` set acc" using Cons.prems kv by auto
  have "distinct (map fst ((acc @ [(k, v)]) @ kvs))" using Cons.prems kv by simp
  then have "foldl (\<lambda>acc (k, v). AList.update k v acc) (acc @ [(k, v)]) kvs
      = (acc @ [(k, v)]) @ kvs"
    by (rule Cons.IH)
  then show ?case using fresh by (simp add: kv update_fresh)
qed

lemma own_properties_distinct:
  assumes "distinct (map fst kvs)"
  shows "own_properties kvs = kvs"
  using foldl_update_distinct [of "[]" kvs] assms by (simp add: own_properties_def)

lemma image_members_keys:
  "fst ` set (image_members kvs) \<subseteq> fst ` set kvs"
proof (induction kvs)
  case Nil
  then show ?case by simp
next
  case (Cons kv kvs)
  obtain k v where kv: "kv = (k, v)" by (cases kv)
  show ?case using Cons by (auto simp: kv)
qed

lemma image_members_distinct:
  assumes "distinct (map fst kvs)"
  shows "distinct (map fst (image_members kvs))"
  using assms
proof (induction kvs)
  case Nil
  then show ?case by simp
next
  case (Cons kv kvs)
  obtain k v where kv: "kv = (k, v)" by (cases kv)
  show ?case using Cons image_members_keys [of kvs] by (auto simp: kv)
qed

lemma join_members_head:
  assumes "serialize_members kvs \<noteq> []"
  shows "\<exists>t'. join (serialize_members kvs) = dquote # t'"
  using assms
proof (induction kvs)
  case Nil
  then show ?case by simp
next
  case (Cons kv kvs)
  obtain k v where kv: "kv = (k, v)" by (cases kv)
  show ?case
  proof (cases "SerializeJSONProperty v")
    case None
    then show ?thesis using Cons by (simp add: kv)
  next
    case (Some t)
    then show ?thesis by (simp add: kv join_Cons QuoteJSONString_def)
  qed
qed

lemma object_step:
  assumes r: "\<And>rest fuel. ms \<noteq> [] \<Longrightarrow>
        2 * length (join ms @ CHR ''}'' # rest) + 2 \<le> fuel
      \<Longrightarrow> parse_members fuel (join ms @ CHR ''}'' # rest) = Parsed ekvs rest"
    and emp: "ms = [] \<Longrightarrow> ekvs = []"
    and hd: "ms \<noteq> [] \<Longrightarrow> \<exists>t'. join ms = dquote # t'"
    and dist: "distinct (map fst ekvs)"
    and fuel: "2 * length (CHR ''{'' # join ms @ CHR ''}'' # rest) + 1 \<le> fuel"
  shows "parse_value fuel (CHR ''{'' # join ms @ CHR ''}'' # rest) = Parsed (JObj ekvs) rest"
proof -
  obtain f where f: "fuel = Suc f" using fuel by (cases fuel) auto
  let ?r = "join ms @ CHR ''}'' # rest"
  have sk: "skip_ws (CHR ''{'' # ?r) = CHR ''{'' # ?r"
    by (rule skip_ws_head) (simp add: is_ws_def)
  show ?thesis
  proof (cases "ms = []")
    case True
    have sk2: "skip_ws (CHR ''}'' # rest) = CHR ''}'' # rest"
      by (rule skip_ws_head) (simp add: is_ws_def)
    show ?thesis unfolding f using True sk2 emp [OF True]
      by (simp add: skip_ws_head is_ws_def)
  next
    case False
    obtain t' where h: "join ms = dquote # t'" using hd [OF False] by blast
    have sk2: "skip_ws ?r = dquote # t' @ CHR ''}'' # rest"
      by (simp add: h skip_ws_head is_ws_def dquote_def)
    have "2 * length ?r + 2 \<le> f" using fuel f by simp
    then have r': "parse_members f ?r = Parsed ekvs rest" using False by (intro r)
    show ?thesis unfolding f using sk sk2 r' own_properties_distinct [OF dist]
      by (simp add: dquote_def)
  qed
qed

lemma round_trip_parse:
  "wellformed v \<Longrightarrow> SerializeJSONProperty v = Some t \<Longrightarrow> delimited rest
    \<Longrightarrow> 2 * length (t @ rest) + 1 \<le> fuel
    \<Longrightarrow> parse_value fuel (t @ rest) = Parsed (json_image v) rest"
  "wellformed_elements vs \<Longrightarrow> vs \<noteq> []
    \<Longrightarrow> 2 * length (join (serialize_elements vs) @ CHR '']'' # rest) + 2 \<le> fuel
    \<Longrightarrow> parse_elements fuel (join (serialize_elements vs) @ CHR '']'' # rest)
        = Parsed (image_elements vs) rest"
  "wellformed_members kvs \<Longrightarrow> serialize_members kvs \<noteq> []
    \<Longrightarrow> 2 * length (join (serialize_members kvs) @ CHR ''}'' # rest) + 2 \<le> fuel
    \<Longrightarrow> parse_members fuel (join (serialize_members kvs) @ CHR ''}'' # rest)
        = Parsed (image_members kvs) rest"
proof (induction v and vs and kvs arbitrary: t rest fuel and rest fuel and rest fuel
    rule: wellformed_wellformed_elements_wellformed_members.induct)
  case 1
  then show ?case by simp
next
  case 2
  obtain f where "fuel = Suc f" using 2(4) by (cases fuel) auto
  then show ?case using 2(2) parse_value_null [of f rest] by simp
next
  case (3 b)
  obtain f where "fuel = Suc f" using 3(4) by (cases fuel) auto
  then show ?case
    using 3(2) parse_value_true [of f rest] parse_value_false [of f rest] by (cases b) auto
next
  case (4 n)
  obtain f where f: "fuel = Suc f" using 4(4) by (cases fuel) auto
  have "parse_value (Suc f) (Number_toString n @ rest) = Parsed (JNum n) rest"
    using 4(1) delimited_number [OF 4(3)] by (intro parse_value_number) simp_all
  then show ?case using 4(2) f by auto
next
  case (5 s)
  obtain f where "fuel = Suc f" using 5(4) by (cases fuel) auto
  then show ?case using 5(2) parse_value_string [of f s rest] by auto
next
  case (6 vs)
  have t: "t = CHR ''['' # join (serialize_elements vs) @ '']''" using 6(3) by auto
  have wf: "wellformed_elements vs" using 6(2) by simp
  have "parse_value fuel (CHR ''['' # join (serialize_elements vs) @ CHR '']'' # rest)
      = Parsed (JArr (image_elements vs)) rest"
  proof (rule array_step)
    show "vs = [] \<Longrightarrow> image_elements vs = []" by simp
    show "2 * length (CHR ''['' # join (serialize_elements vs) @ CHR '']'' # rest) + 1 \<le> fuel"
      using 6(5) t by simp
    show "\<And>rest fuel. vs \<noteq> [] \<Longrightarrow>
        2 * length (join (serialize_elements vs) @ CHR '']'' # rest) + 2 \<le> fuel
      \<Longrightarrow> parse_elements fuel (join (serialize_elements vs) @ CHR '']'' # rest)
          = Parsed (image_elements vs) rest"
      using 6(1) [OF wf] by blast
  qed
  then show ?case using t by simp
next
  case (7 kvs)
  have t: "t = CHR ''{'' # join (serialize_members kvs) @ ''}''" using 7(3) by auto
  have wf: "wellformed_members kvs" and d: "distinct (map fst kvs)" using 7(2) by simp_all
  have "parse_value fuel (CHR ''{'' # join (serialize_members kvs) @ CHR ''}'' # rest)
      = Parsed (JObj (image_members kvs)) rest"
  proof (rule object_step)
    show "serialize_members kvs = [] \<Longrightarrow> image_members kvs = []"
      by (rule serialize_members_Nil_image)
    show "serialize_members kvs \<noteq> [] \<Longrightarrow> \<exists>t'. join (serialize_members kvs) = dquote # t'"
      by (rule join_members_head)
    show "distinct (map fst (image_members kvs))" using d by (rule image_members_distinct)
    show "2 * length (CHR ''{'' # join (serialize_members kvs) @ CHR ''}'' # rest) + 1 \<le> fuel"
      using 7(5) t by simp
    show "\<And>rest fuel. serialize_members kvs \<noteq> [] \<Longrightarrow>
        2 * length (join (serialize_members kvs) @ CHR ''}'' # rest) + 2 \<le> fuel
      \<Longrightarrow> parse_members fuel (join (serialize_members kvs) @ CHR ''}'' # rest)
          = Parsed (image_members kvs) rest"
      using 7(1) [OF wf] by blast
  qed
  then show ?case using t by simp
next
  case 8
  then show ?case by simp
next
  case (9 v vs)
  have wv: "wellformed v" and wvs: "wellformed_elements vs" using 9(3) by simp_all
  have "parse_elements fuel (join (serialize_elements (v # vs)) @ CHR '']'' # rest)
      = Parsed ((if v = JUndefined then JNull else json_image v) # image_elements vs) rest"
  proof (rule elements_step)
    show "vs = [] \<Longrightarrow> image_elements vs = []" by simp
    show "2 * length (join (serialize_elements (v # vs)) @ CHR '']'' # rest) + 2 \<le> fuel"
      using 9(5) .
    show "\<And>rest fuel. vs \<noteq> [] \<Longrightarrow>
        2 * length (join (serialize_elements vs) @ CHR '']'' # rest) + 2 \<le> fuel
      \<Longrightarrow> parse_elements fuel (join (serialize_elements vs) @ CHR '']'' # rest)
          = Parsed (image_elements vs) rest"
      using 9(2) [OF wvs] by blast
    show "\<And>rest fuel. delimited rest \<Longrightarrow> 2 * length (element_text v @ rest) + 1 \<le> fuel
      \<Longrightarrow> parse_value fuel (element_text v @ rest)
          = Parsed (if v = JUndefined then JNull else json_image v) rest"
      using 9(1) [OF wv] by (intro element_parse) blast+
  qed
  then show ?case by simp
next
  case 10
  then show ?case by simp
next
  case (11 k v kvs)
  have wv: "wellformed v" and wkvs: "wellformed_members kvs" using 11(3) by simp_all
  show ?case
  proof (cases "SerializeJSONProperty v")
    case None
    then have u: "v = JUndefined" by (simp add: Serialize_None_iff)
    have ne: "serialize_members kvs \<noteq> []" using 11(4) None by simp
    have "2 * length (join (serialize_members kvs) @ CHR ''}'' # rest) + 2 \<le> fuel"
      using 11(5) None by simp
    then have "parse_members fuel (join (serialize_members kvs) @ CHR ''}'' # rest)
        = Parsed (image_members kvs) rest"
      using wkvs ne by (intro 11(2))
    then show ?thesis using None u by simp
  next
    case (Some tv)
    then have nu: "v \<noteq> JUndefined" by auto
    have tv: "tv \<noteq> []" using Some by (rule SerializeJSONProperty_nonempty)
    have "parse_members fuel
        (join ((QuoteJSONString k @ CHR '':'' # tv) # serialize_members kvs) @ CHR ''}'' # rest)
        = Parsed ((k, json_image v) # image_members kvs) rest"
    proof (rule members_step)
      show "tv \<noteq> []" by (rule tv)
      show "serialize_members kvs = [] \<Longrightarrow> image_members kvs = []"
        by (rule serialize_members_Nil_image)
      show "2 * length (join ((QuoteJSONString k @ CHR '':'' # tv) # serialize_members kvs)
          @ CHR ''}'' # rest) + 2 \<le> fuel"
        using 11(5) Some by simp
      show "\<And>rest fuel. serialize_members kvs \<noteq> [] \<Longrightarrow>
          2 * length (join (serialize_members kvs) @ CHR ''}'' # rest) + 2 \<le> fuel
        \<Longrightarrow> parse_members fuel (join (serialize_members kvs) @ CHR ''}'' # rest)
            = Parsed (image_members kvs) rest"
        using 11(2) [OF wkvs] by blast
      show "\<And>rest fuel. delimited rest \<Longrightarrow> 2 * length (tv @ rest) + 1 \<le> fuel
        \<Longrightarrow> parse_value fuel (tv @ rest) = Parsed (json_image v) rest"
        using 11(1) [OF wv Some] by blast
    qed
    then show ?thesis using Some nu by simp
  qed
qed

lemma JSON_parse_stringify:
  assumes "wellformed v" and "JSON_stringify v = Some t"
  shows "JSON_parse t = Inr (json_image v)"
proof -
  have "parse_value (2 * length t + 1) (t @ []) = Parsed (json_image v) []"
    using assms by (intro round_trip_parse(1)) (simp_all add: JSON_stringify_def delimited_simps)
  then show ?thesis by (simp add: JSON_parse_def skip_ws_Nil)
qed

subsection \<open>The parser consumes its input and never runs out of fuel\<close>

lemma skip_ws_length: "length (skip_ws s) \<le> length s"
  by (simp add: skip_ws_def length_dropWhile_le)

lemma skip_ws_Cons_length:
  assumes "skip_ws s = c # r"
  shows "length r < length s"
  using skip_ws_length [of s] assms by simp

lemma map_parsed_Parsed:
  "(map_parsed g p = Parsed y r) = (\<exists>x. p = Parsed x r \<and> y = g x)"
  by (cases p) auto

lemma Parsed_map_parsed:
  "(Parsed y r = map_parsed g p) = (\<exists>x. p = Parsed x r \<and> y = g x)"
  by (cases p) auto

lemma map_parsed_Exhausted: "(map_parsed g p = Exhausted) = (p = Exhausted)"
  by (cases p) auto

lemma parse_chars_step:
  assumes "c \<noteq> dquote"
  shows "(\<exists>e. parse_chars (c # cs) = Failed e)
       \<or> (\<exists>sub g. parse_chars (c # cs) = map_parsed g (parse_chars sub)
             \<and> length sub \<le> length cs)"
proof (cases "c = backslash")
  case False
  then have "parse_chars (c # cs) = map_parsed ((#) c) (parse_chars cs)
      \<or> parse_chars (c # cs) = Failed SyntaxError"
    using assms by simp
  then show ?thesis by blast
next
  case True
  show ?thesis
  proof (cases cs)
    case Nil
    then show ?thesis using assms True by simp
  next
    case (Cons e cs')
    show ?thesis
    proof (cases "e = CHR ''u''")
      case False
      then have eq: "parse_chars (c # cs) = (case unescape e of None \<Rightarrow> Failed SyntaxError
          | Some ch \<Rightarrow> map_parsed ((#) ch) (parse_chars cs'))"
        using assms True Cons by simp
      show ?thesis
      proof (cases "unescape e")
        case None
        then show ?thesis using eq by simp
      next
        case (Some ch)
        then have "parse_chars (c # cs) = map_parsed ((#) ch) (parse_chars cs')"
          using eq by simp
        moreover have "length cs' \<le> length cs" using Cons by simp
        ultimately show ?thesis by blast
      qed
    next
      case u: True
      have eq: "parse_chars (c # cs) =
          (case cs' of
             h1 # h2 # h3 # h4 # cs'' \<Rightarrow>
               (case hex4 h1 h2 h3 h4 of
                  None \<Rightarrow> Failed SyntaxError
                | Some n \<Rightarrow>
                    if n < 256 then map_parsed ((#) (char_of n)) (parse_chars cs'')
                    else Failed Unmodelled)
           | _ \<Rightarrow> Failed SyntaxError)"
        using assms True Cons u by simp
      show ?thesis
      proof (cases "\<exists>h1 h2 h3 h4 cs''. cs' = h1 # h2 # h3 # h4 # cs''")
        case False
        then have "parse_chars (c # cs) = Failed SyntaxError"
          unfolding eq by (auto split: list.splits)
        then show ?thesis by blast
      next
        case True
        then obtain h1 h2 h3 h4 cs'' where cs': "cs' = h1 # h2 # h3 # h4 # cs''" by blast
        show ?thesis
        proof (cases "hex4 h1 h2 h3 h4")
          case None
          then show ?thesis unfolding eq cs' by simp
        next
          case (Some n)
          show ?thesis
          proof (cases "n < 256")
            case False
            then show ?thesis unfolding eq cs' using Some by simp
          next
            case lt: True
            have "parse_chars (c # cs) = map_parsed ((#) (char_of n)) (parse_chars cs'')"
              unfolding eq cs' using Some lt by simp
            moreover have "length cs'' \<le> length cs" using Cons cs' by simp
            ultimately show ?thesis by blast
          qed
        qed
      qed
    qed
  qed
qed

lemma parse_chars_consumes:
  "parse_chars s = Parsed k r \<Longrightarrow> length r < length s"
proof (induction "length s" arbitrary: s k rule: less_induct)
  case less
  show ?case
  proof (cases s)
    case Nil
    then show ?thesis using less.prems by simp
  next
    case (Cons c cs)
    show ?thesis
    proof (cases "c = dquote")
      case True
      then show ?thesis using less.prems Cons by simp
    next
      case False
      have res: "parse_chars (c # cs) = Parsed k r" using less.prems Cons by (simp only:)
      obtain sub k' where sub: "parse_chars sub = Parsed k' r" "length sub \<le> length cs"
        using parse_chars_step [OF False, of cs] unfolding res
        by (auto simp: Parsed_map_parsed)
      have "length sub < length s" using sub(2) Cons by simp
      then have "length r < length sub" using sub(1) by (rule less.hyps)
      then show ?thesis using sub(2) Cons by simp
    qed
  qed
qed

lemma parse_chars_not_Exhausted: "parse_chars s \<noteq> Exhausted"
proof (induction "length s" arbitrary: s rule: less_induct)
  case less
  show ?case
  proof (cases s)
    case Nil
    then show ?thesis by simp
  next
    case (Cons c cs)
    show ?thesis
    proof (cases "c = dquote")
      case True
      then show ?thesis using Cons by simp
    next
      case False
      show ?thesis
      proof
        assume ex: "parse_chars s = Exhausted"
        then have res: "parse_chars (c # cs) = Exhausted" using Cons by (simp only:)
        obtain sub where sub: "parse_chars sub = Exhausted" "length sub \<le> length cs"
          using parse_chars_step [OF False, of cs] unfolding res
          by (auto simp: map_parsed_Exhausted dest: sym)
        have "length sub < length s" using sub(2) Cons by simp
        then have "parse_chars sub \<noteq> Exhausted" by (rule less.hyps)
        then show False using sub(1) by simp
      qed
    qed
  qed
qed

lemma parse_number_result:
  "(\<exists>e. parse_number s = Failed e)
   \<or> (\<exists>v r. parse_number s = Parsed v r \<and> length r < length s)"
proof -
  let ?negative = "case s of [] \<Rightarrow> False | c # _ \<Rightarrow> c = CHR ''-''"
  let ?s1 = "if ?negative then tl s else s"
  have s1: "length ?s1 \<le> length s" by simp
  show ?thesis
  proof (cases ?s1)
    case Nil
    then show ?thesis by (simp add: parse_number_def)
  next
    case (Cons c r)
    show ?thesis
    proof (cases "is_digit c")
      case False
      then show ?thesis using Cons by (simp add: parse_number_def)
    next
      case True
      let ?rest = "if c = CHR ''0'' then r else dropWhile is_digit ?s1"
      have "length ?rest < length ?s1"
        using Cons True by (auto simp: le_imp_less_Suc length_dropWhile_le)
      then have lt: "length ?rest < length s" using s1 by linarith
      have "parse_number s = Failed Unmodelled
          \<or> (\<exists>v. parse_number s = Parsed v ?rest)"
        using Cons True by (simp add: parse_number_def Let_def)
      then show ?thesis using lt by blast
    qed
  qed
qed

lemma parse_literal_result:
  assumes "name \<noteq> []"
  shows "(\<exists>e. parse_literal name v s = Failed e)
   \<or> (\<exists>r. parse_literal name v s = Parsed v r \<and> length r < length s)"
proof (cases "take (length name) s = name")
  case False
  then show ?thesis by (simp add: parse_literal_def)
next
  case True
  then have "length (take (length name) s) = length name" by simp
  then have "length name \<le> length s" by simp
  then have "length (drop (length name) s) < length s" using assms by (cases name) auto
  then show ?thesis using True by (simp add: parse_literal_def)
qed

lemma parse_elements_step_consumes:
  assumes v: "\<And>s v r. parse_value f s = Parsed v r \<Longrightarrow> length r < length s"
    and e: "\<And>s vs r. parse_elements f s = Parsed vs r \<Longrightarrow> length r < length s"
    and p: "parse_elements (Suc f) s = Parsed vs rest"
  shows "length rest < length s"
proof (cases "parse_value f s")
  case Exhausted
  then show ?thesis using p by simp
next
  case (Failed x)
  then show ?thesis using p by simp
next
  case (Parsed x r)
  have r: "length r < length s" using Parsed by (rule v)
  show ?thesis
  proof (cases "skip_ws r")
    case Nil
    then show ?thesis using p Parsed by simp
  next
    case (Cons c r')
    have r': "length r' < length r" using Cons by (rule skip_ws_Cons_length)
    show ?thesis
    proof (cases "c = CHR '',''")
      case True
      then obtain ys where "parse_elements f r' = Parsed ys rest"
        using p Parsed Cons by (auto simp: map_parsed_Parsed)
      then have "length rest < length r'" by (rule e)
      then show ?thesis using r r' by simp
    next
      case False
      then have "rest = r'" using p Parsed Cons by (auto split: if_splits)
      then show ?thesis using r r' by simp
    qed
  qed
qed

lemma parse_elements_step_fuel:
  assumes v: "\<And>s v r. parse_value f s = Parsed v r \<Longrightarrow> length r < length s"
    and vx: "\<And>s. 2 * length s + 1 \<le> f \<Longrightarrow> parse_value f s \<noteq> Exhausted"
    and ex: "\<And>s. 2 * length s + 2 \<le> f \<Longrightarrow> parse_elements f s \<noteq> Exhausted"
    and fuel: "2 * length s + 2 \<le> Suc f"
  shows "parse_elements (Suc f) s \<noteq> Exhausted"
proof (cases "parse_value f s")
  case Exhausted
  moreover have "parse_value f s \<noteq> Exhausted" using fuel by (intro vx) simp
  ultimately show ?thesis by simp
next
  case (Failed x)
  then show ?thesis by simp
next
  case (Parsed x r)
  have r: "length r < length s" using Parsed by (rule v)
  show ?thesis
  proof (cases "skip_ws r")
    case Nil
    then show ?thesis using Parsed by simp
  next
    case (Cons c r')
    have r': "length r' < length r" using Cons by (rule skip_ws_Cons_length)
    have "parse_elements f r' \<noteq> Exhausted" using fuel r r' by (intro ex) simp
    then show ?thesis using Parsed Cons by (simp add: map_parsed_Exhausted)
  qed
qed

lemma parse_members_Suc:
  assumes "skip_ws s = q # r" and "q = dquote" and "parse_chars r = Parsed k r1"
    and "skip_ws r1 = c1 # r2" and "c1 = CHR '':''"
  shows "parse_members (Suc f) s =
    (case parse_value f r2 of
       Exhausted \<Rightarrow> Exhausted
     | Failed e \<Rightarrow> Failed e
     | Parsed v r3 \<Rightarrow>
         (case skip_ws r3 of
            [] \<Rightarrow> Failed SyntaxError
          | c3 # r4 \<Rightarrow>
              if c3 = CHR '','' then map_parsed ((#) (k, v)) (parse_members f r4)
              else if c3 = CHR ''}'' then Parsed [(k, v)] r4
              else Failed SyntaxError))"
  using assms by simp

lemma parse_members_prefix:
  "(\<exists>e. parse_members (Suc f) s = Failed e)
   \<or> (\<exists>q r k r1 c1 r2. skip_ws s = q # r \<and> q = dquote \<and> parse_chars r = Parsed k r1
        \<and> skip_ws r1 = c1 # r2 \<and> c1 = CHR '':'')"
proof (cases "skip_ws s")
  case Nil
  then show ?thesis by simp
next
  case (Cons q r)
  show ?thesis
  proof (cases "q = dquote")
    case False
    then show ?thesis using Cons by simp
  next
    case q: True
    show ?thesis
    proof (cases "parse_chars r")
      case Exhausted
      then show ?thesis using parse_chars_not_Exhausted [of r] by simp
    next
      case (Failed e)
      then show ?thesis using Cons q by simp
    next
      case (Parsed k r1)
      show ?thesis
      proof (cases "skip_ws r1")
        case Nil
        then show ?thesis using Cons q Parsed by simp
      next
        case c1: (Cons c1 r2)
        show ?thesis
        proof (cases "c1 = CHR '':''")
          case False
          then show ?thesis using Cons q Parsed c1 by simp
        next
          case True
          then show ?thesis using Cons q Parsed c1 by blast
        qed
      qed
    qed
  qed
qed

lemma parse_members_step_consumes:
  assumes v: "\<And>s v r. parse_value f s = Parsed v r \<Longrightarrow> length r < length s"
    and m: "\<And>s kvs r. parse_members f s = Parsed kvs r \<Longrightarrow> length r < length s"
    and p: "parse_members (Suc f) s = Parsed kvs rest"
  shows "length rest < length s"
proof -
  obtain q r k r1 c1 r2 where pre: "skip_ws s = q # r" "q = dquote"
    "parse_chars r = Parsed k r1" "skip_ws r1 = c1 # r2" "c1 = CHR '':''"
    using parse_members_prefix [of f s] p by auto
  have eq: "parse_members (Suc f) s =
    (case parse_value f r2 of
       Exhausted \<Rightarrow> Exhausted
     | Failed e \<Rightarrow> Failed e
     | Parsed v r3 \<Rightarrow>
         (case skip_ws r3 of
            [] \<Rightarrow> Failed SyntaxError
          | c3 # r4 \<Rightarrow>
              if c3 = CHR '','' then map_parsed ((#) (k, v)) (parse_members f r4)
              else if c3 = CHR ''}'' then Parsed [(k, v)] r4
              else Failed SyntaxError))"
    using pre by (rule parse_members_Suc)
  have l1: "length r < length s" using pre(1) by (rule skip_ws_Cons_length)
  have l2: "length r1 < length r" using pre(3) by (rule parse_chars_consumes)
  have l3: "length r2 < length r1" using pre(4) by (rule skip_ws_Cons_length)
  show ?thesis
  proof (cases "parse_value f r2")
    case Exhausted
    then show ?thesis using p unfolding eq by simp
  next
    case (Failed x)
    then show ?thesis using p unfolding eq by simp
  next
    case (Parsed x r3)
    have l4: "length r3 < length r2" using Parsed by (rule v)
    show ?thesis
    proof (cases "skip_ws r3")
      case Nil
      then show ?thesis using p Parsed unfolding eq by simp
    next
      case (Cons c3 r4)
      have l5: "length r4 < length r3" using Cons by (rule skip_ws_Cons_length)
      show ?thesis
      proof (cases "c3 = CHR '',''")
        case True
        then obtain ys where "parse_members f r4 = Parsed ys rest"
          using p Parsed Cons unfolding eq by (auto simp: map_parsed_Parsed)
        then have "length rest < length r4" by (rule m)
        then show ?thesis using l1 l2 l3 l4 l5 by simp
      next
        case False
        then have "rest = r4" using p Parsed Cons unfolding eq by (auto split: if_splits)
        then show ?thesis using l1 l2 l3 l4 l5 by simp
      qed
    qed
  qed
qed

lemma parse_members_step_fuel:
  assumes v: "\<And>s v r. parse_value f s = Parsed v r \<Longrightarrow> length r < length s"
    and vx: "\<And>s. 2 * length s + 1 \<le> f \<Longrightarrow> parse_value f s \<noteq> Exhausted"
    and mx: "\<And>s. 2 * length s + 2 \<le> f \<Longrightarrow> parse_members f s \<noteq> Exhausted"
    and fuel: "2 * length s + 2 \<le> Suc f"
  shows "parse_members (Suc f) s \<noteq> Exhausted"
proof
  assume ex: "parse_members (Suc f) s = Exhausted"
  obtain q r k r1 c1 r2 where pre: "skip_ws s = q # r" "q = dquote"
    "parse_chars r = Parsed k r1" "skip_ws r1 = c1 # r2" "c1 = CHR '':''"
    using parse_members_prefix [of f s] ex by auto
  have eq: "parse_members (Suc f) s =
    (case parse_value f r2 of
       Exhausted \<Rightarrow> Exhausted
     | Failed e \<Rightarrow> Failed e
     | Parsed v r3 \<Rightarrow>
         (case skip_ws r3 of
            [] \<Rightarrow> Failed SyntaxError
          | c3 # r4 \<Rightarrow>
              if c3 = CHR '','' then map_parsed ((#) (k, v)) (parse_members f r4)
              else if c3 = CHR ''}'' then Parsed [(k, v)] r4
              else Failed SyntaxError))"
    using pre by (rule parse_members_Suc)
  have l1: "length r < length s" using pre(1) by (rule skip_ws_Cons_length)
  have l2: "length r1 < length r" using pre(3) by (rule parse_chars_consumes)
  have l3: "length r2 < length r1" using pre(4) by (rule skip_ws_Cons_length)
  have nx: "parse_value f r2 \<noteq> Exhausted" using fuel l1 l2 l3 by (intro vx) simp
  show False
  proof (cases "parse_value f r2")
    case Exhausted
    then show ?thesis using nx by simp
  next
    case (Failed x)
    then show ?thesis using ex unfolding eq by simp
  next
    case (Parsed x r3)
    have l4: "length r3 < length r2" using Parsed by (rule v)
    show ?thesis
    proof (cases "skip_ws r3")
      case Nil
      then show ?thesis using ex Parsed unfolding eq by simp
    next
      case (Cons c3 r4)
      have l5: "length r4 < length r3" using Cons by (rule skip_ws_Cons_length)
      have "parse_members f r4 \<noteq> Exhausted" using fuel l1 l2 l3 l4 l5 by (intro mx) simp
      then show ?thesis
        using ex Parsed Cons unfolding eq by (auto simp: map_parsed_Exhausted split: if_splits)
    qed
  qed
qed

lemma parse_value_leaf:
  assumes "skip_ws s = c # r" and "c \<noteq> CHR ''[''" and "c \<noteq> CHR ''{''"
  shows "(\<exists>e. parse_value (Suc f) s = Failed e)
       \<or> (\<exists>v rest. parse_value (Suc f) s = Parsed v rest \<and> length rest < length s)"
proof -
  have len: "length (c # r) \<le> length s" using skip_ws_length [of s] assms(1) by simp
  have lr: "length r < length s" using assms(1) by (rule skip_ws_Cons_length)
  consider (str) "c = dquote"
    | (null) "c \<noteq> dquote" "c = CHR ''n''"
    | (true) "c \<noteq> dquote" "c = CHR ''t''"
    | (false) "c \<noteq> dquote" "c = CHR ''f''"
    | (num) "c \<noteq> dquote" "c \<noteq> CHR ''n''" "c \<noteq> CHR ''t''" "c \<noteq> CHR ''f''"
        "c = CHR ''-'' \<or> is_digit c"
    | (other) "c \<noteq> dquote" "c \<noteq> CHR ''n''" "c \<noteq> CHR ''t''" "c \<noteq> CHR ''f''"
        "\<not> (c = CHR ''-'' \<or> is_digit c)"
    by blast
  then show ?thesis
  proof cases
    case str
    have eq: "parse_value (Suc f) s = map_parsed JStr (parse_chars r)"
      using assms str by simp
    show ?thesis
    proof (cases "parse_chars r")
      case Exhausted
      then show ?thesis using parse_chars_not_Exhausted [of r] by simp
    next
      case (Failed e)
      then show ?thesis unfolding eq by simp
    next
      case (Parsed k rest)
      then have "length rest < length r" by (rule parse_chars_consumes)
      then show ?thesis unfolding eq using Parsed lr by simp
    qed
  next
    case null
    have eq: "parse_value (Suc f) s = parse_literal ''null'' JNull (c # r)"
      using assms null by simp
    show ?thesis unfolding eq
      using parse_literal_result [of "''null''" JNull "c # r"] len by force
  next
    case true
    have eq: "parse_value (Suc f) s = parse_literal ''true'' (JBool True) (c # r)"
      using assms true by simp
    show ?thesis unfolding eq
      using parse_literal_result [of "''true''" "JBool True" "c # r"] len by force
  next
    case false
    have eq: "parse_value (Suc f) s = parse_literal ''false'' (JBool False) (c # r)"
      using assms false by simp
    show ?thesis unfolding eq
      using parse_literal_result [of "''false''" "JBool False" "c # r"] len by force
  next
    case num
    have eq: "parse_value (Suc f) s = parse_number (c # r)"
      using assms num by simp
    show ?thesis unfolding eq
      using parse_number_result [of "c # r"] len by force
  next
    case other
    have "parse_value (Suc f) s = Failed SyntaxError"
      using assms other by simp
    then show ?thesis by simp
  qed
qed

lemma parse_value_array:
  assumes "skip_ws s = CHR ''['' # r"
  shows "parse_value (Suc f) s =
    (case skip_ws r of
       [] \<Rightarrow> Failed SyntaxError
     | c' # r' \<Rightarrow>
         if c' = CHR '']'' then Parsed (JArr []) r'
         else map_parsed JArr (parse_elements f r))"
  using assms by simp

lemma parse_value_object:
  assumes "skip_ws s = CHR ''{'' # r"
  shows "parse_value (Suc f) s =
    (case skip_ws r of
       [] \<Rightarrow> Failed SyntaxError
     | c' # r' \<Rightarrow>
         if c' = CHR ''}'' then Parsed (JObj []) r'
         else map_parsed (\<lambda>kvs. JObj (own_properties kvs)) (parse_members f r))"
  using assms by simp

lemma parse_value_step_consumes:
  assumes e: "\<And>s vs r. parse_elements f s = Parsed vs r \<Longrightarrow> length r < length s"
    and m: "\<And>s kvs r. parse_members f s = Parsed kvs r \<Longrightarrow> length r < length s"
    and p: "parse_value (Suc f) s = Parsed v rest"
  shows "length rest < length s"
proof (cases "skip_ws s")
  case Nil
  then show ?thesis using p by simp
next
  case (Cons c r)
  have lr: "length r < length s" using Cons by (rule skip_ws_Cons_length)
  consider (arr) "c = CHR ''[''" | (obj) "c = CHR ''{''"
    | (leaf) "c \<noteq> CHR ''[''" "c \<noteq> CHR ''{''" by blast
  then show ?thesis
  proof cases
    case arr
    have eq: "parse_value (Suc f) s =
      (case skip_ws r of
         [] \<Rightarrow> Failed SyntaxError
       | c' # r' \<Rightarrow>
           if c' = CHR '']'' then Parsed (JArr []) r'
           else map_parsed JArr (parse_elements f r))"
      using Cons arr by (intro parse_value_array) simp
    show ?thesis
    proof (cases "skip_ws r")
      case Nil
      then show ?thesis using p unfolding eq by simp
    next
      case c': (Cons c' r')
      have lr': "length r' < length r" using c' by (rule skip_ws_Cons_length)
      show ?thesis
      proof (cases "c' = CHR '']''")
        case True
        then have "rest = r'" using p c' unfolding eq by simp
        then show ?thesis using lr lr' by simp
      next
        case False
        then obtain vs where "parse_elements f r = Parsed vs rest"
          using p c' unfolding eq by (auto simp: map_parsed_Parsed)
        then have "length rest < length r" by (rule e)
        then show ?thesis using lr by simp
      qed
    qed
  next
    case obj
    have eq: "parse_value (Suc f) s =
      (case skip_ws r of
         [] \<Rightarrow> Failed SyntaxError
       | c' # r' \<Rightarrow>
           if c' = CHR ''}'' then Parsed (JObj []) r'
           else map_parsed (\<lambda>kvs. JObj (own_properties kvs)) (parse_members f r))"
      using Cons obj by (intro parse_value_object) simp
    show ?thesis
    proof (cases "skip_ws r")
      case Nil
      then show ?thesis using p unfolding eq by simp
    next
      case c': (Cons c' r')
      have lr': "length r' < length r" using c' by (rule skip_ws_Cons_length)
      show ?thesis
      proof (cases "c' = CHR ''}''")
        case True
        then have "rest = r'" using p c' unfolding eq by simp
        then show ?thesis using lr lr' by simp
      next
        case False
        then obtain kvs where "parse_members f r = Parsed kvs rest"
          using p c' unfolding eq by (auto simp: map_parsed_Parsed)
        then have "length rest < length r" by (rule m)
        then show ?thesis using lr by simp
      qed
    qed
  next
    case leaf
    show ?thesis using parse_value_leaf [OF Cons leaf, of f] p by auto
  qed
qed

lemma parse_value_step_fuel:
  assumes ex: "\<And>s. 2 * length s + 2 \<le> f \<Longrightarrow> parse_elements f s \<noteq> Exhausted"
    and mx: "\<And>s. 2 * length s + 2 \<le> f \<Longrightarrow> parse_members f s \<noteq> Exhausted"
    and fuel: "2 * length s + 1 \<le> Suc f"
  shows "parse_value (Suc f) s \<noteq> Exhausted"
proof (cases "skip_ws s")
  case Nil
  then show ?thesis by simp
next
  case (Cons c r)
  have lr: "length r < length s" using Cons by (rule skip_ws_Cons_length)
  have fr: "2 * length r + 2 \<le> f" using fuel lr by simp
  consider (arr) "c = CHR ''[''" | (obj) "c = CHR ''{''"
    | (leaf) "c \<noteq> CHR ''[''" "c \<noteq> CHR ''{''" by blast
  then show ?thesis
  proof cases
    case arr
    have "parse_elements f r \<noteq> Exhausted" using fr by (rule ex)
    then show ?thesis
      using Cons arr by (auto simp: map_parsed_Exhausted split: list.splits)
  next
    case obj
    have "parse_members f r \<noteq> Exhausted" using fr by (rule mx)
    then show ?thesis
      using Cons obj by (auto simp: map_parsed_Exhausted split: list.splits)
  next
    case leaf
    show ?thesis using parse_value_leaf [OF Cons leaf, of f] by auto
  qed
qed

lemma parser_consumes_and_fuel:
  "(\<forall>s v r. parse_value fuel s = Parsed v r \<longrightarrow> length r < length s)
   \<and> (\<forall>s vs r. parse_elements fuel s = Parsed vs r \<longrightarrow> length r < length s)
   \<and> (\<forall>s kvs r. parse_members fuel s = Parsed kvs r \<longrightarrow> length r < length s)
   \<and> (\<forall>s. 2 * length s + 1 \<le> fuel \<longrightarrow> parse_value fuel s \<noteq> Exhausted)
   \<and> (\<forall>s. 2 * length s + 2 \<le> fuel \<longrightarrow> parse_elements fuel s \<noteq> Exhausted)
   \<and> (\<forall>s. 2 * length s + 2 \<le> fuel \<longrightarrow> parse_members fuel s \<noteq> Exhausted)"
proof (induction fuel)
  case 0
  then show ?case by simp
next
  case (Suc f)
  have v: "\<And>s v r. parse_value f s = Parsed v r \<Longrightarrow> length r < length s"
    and e: "\<And>s vs r. parse_elements f s = Parsed vs r \<Longrightarrow> length r < length s"
    and m: "\<And>s kvs r. parse_members f s = Parsed kvs r \<Longrightarrow> length r < length s"
    and vx: "\<And>s. 2 * length s + 1 \<le> f \<Longrightarrow> parse_value f s \<noteq> Exhausted"
    and ex: "\<And>s. 2 * length s + 2 \<le> f \<Longrightarrow> parse_elements f s \<noteq> Exhausted"
    and mx: "\<And>s. 2 * length s + 2 \<le> f \<Longrightarrow> parse_members f s \<noteq> Exhausted"
    using Suc.IH by blast+
  have a: "\<forall>s v r. parse_value (Suc f) s = Parsed v r \<longrightarrow> length r < length s"
  proof (intro allI impI)
    fix s v r
    assume p: "parse_value (Suc f) s = Parsed v r"
    show "length r < length s"
      by (rule parse_value_step_consumes [where f = f, OF _ _ p]) (erule e, erule m)
  qed
  have b: "\<forall>s vs r. parse_elements (Suc f) s = Parsed vs r \<longrightarrow> length r < length s"
  proof (intro allI impI)
    fix s vs r
    assume p: "parse_elements (Suc f) s = Parsed vs r"
    show "length r < length s"
      by (rule parse_elements_step_consumes [where f = f, OF _ _ p]) (erule v, erule e)
  qed
  have c: "\<forall>s kvs r. parse_members (Suc f) s = Parsed kvs r \<longrightarrow> length r < length s"
  proof (intro allI impI)
    fix s kvs r
    assume p: "parse_members (Suc f) s = Parsed kvs r"
    show "length r < length s"
      by (rule parse_members_step_consumes [where f = f, OF _ _ p]) (erule v, erule m)
  qed
  have d: "\<forall>s. 2 * length s + 1 \<le> Suc f \<longrightarrow> parse_value (Suc f) s \<noteq> Exhausted"
  proof (intro allI impI)
    fix s :: string
    assume fuel: "2 * length s + 1 \<le> Suc f"
    show "parse_value (Suc f) s \<noteq> Exhausted"
      by (rule parse_value_step_fuel [where f = f, OF _ _ fuel]) (erule ex, erule mx)
  qed
  have g: "\<forall>s. 2 * length s + 2 \<le> Suc f \<longrightarrow> parse_elements (Suc f) s \<noteq> Exhausted"
  proof (intro allI impI)
    fix s :: string
    assume fuel: "2 * length s + 2 \<le> Suc f"
    show "parse_elements (Suc f) s \<noteq> Exhausted"
      by (rule parse_elements_step_fuel [where f = f, OF _ _ _ fuel]) (erule v, erule vx, erule ex)
  qed
  have h: "\<forall>s. 2 * length s + 2 \<le> Suc f \<longrightarrow> parse_members (Suc f) s \<noteq> Exhausted"
  proof (intro allI impI)
    fix s :: string
    assume fuel: "2 * length s + 2 \<le> Suc f"
    show "parse_members (Suc f) s \<noteq> Exhausted"
      by (rule parse_members_step_fuel [where f = f, OF _ _ _ fuel]) (erule v, erule vx, erule mx)
  qed
  show ?case using a b c d g h by blast
qed

lemma JSON_parse_fuel:
  "parse_value (2 * length s + 1) s \<noteq> Exhausted"
  using parser_consumes_and_fuel [of "2 * length s + 1"] by blast

section \<open>Properties of the resource cache\<close>

subsection \<open>The store and one call\<close>

lemma getItem_setItem:
  assumes "setItem st k v = Inr st'"
  shows "getItem st' k' = (if k' = k then Some v else getItem st k')"
  using assms
  by (auto simp: setItem_def getItem_def Let_def update_conv' split: if_splits)

lemma setItem_quota:
  assumes "setItem st k v = Inr st'"
  shows "quota st' = quota st"
  using assms by (auto simp: setItem_def Let_def split: if_splits)

lemma setItem_error:
  assumes "setItem st k v = Inl e"
  shows "e = QuotaExceededError"
  using assms by (auto simp: setItem_def Let_def split: if_splits)

lemma preferStorage_hit:
  assumes "getItem (localStorage w) k = Some s" and "s \<noteq> []"
  shows "preferStorage k p w = (JSON_parse s, w)"
  using assms by (simp add: preferStorage_def truthy_def ToString_def)

lemma preferStorage_miss_rejected:
  assumes "\<not> truthy (getItem (localStorage w) k)" and "p (outside w) = (Inl e, n)"
  shows "preferStorage k p w = (Inl e, w\<lparr>outside := n\<rparr>)"
  using assms by (simp add: preferStorage_def)

lemma preferStorage_miss_stored:
  assumes "\<not> truthy (getItem (localStorage w) k)" and "p (outside w) = (Inr r, n)"
    and "setItem (localStorage w) k (ToString (JSON_stringify r)) = Inr st"
  shows "preferStorage k p w = (Inr r, \<lparr>localStorage = st, outside = n\<rparr>)"
  using assms by (simp add: preferStorage_def)

lemma preferStorage_miss_quota:
  assumes "\<not> truthy (getItem (localStorage w) k)" and "p (outside w) = (Inr r, n)"
    and "setItem (localStorage w) k (ToString (JSON_stringify r)) = Inl e"
  shows "preferStorage k p w = (Inl QuotaExceededError, w\<lparr>outside := n\<rparr>)"
  using assms setItem_error [OF assms(3)] by (simp add: preferStorage_def)

lemma preferStorage_miss_outside:
  assumes "\<not> truthy (getItem (localStorage w) k)"
  shows "outside (snd (preferStorage k p w)) = snd (p (outside w))"
  using assms
  by (cases "p (outside w)") (auto simp: preferStorage_def split: sum.splits)

lemma preferStorage_frame:
  assumes "k' \<noteq> k"
  shows "getItem (localStorage (snd (preferStorage k p w))) k' = getItem (localStorage w) k'"
proof (cases "truthy (getItem (localStorage w) k)")
  case True
  then show ?thesis by (simp add: preferStorage_def)
next
  case False
  obtain out n where pn: "p (outside w) = (out, n)" by (cases "p (outside w)")
  show ?thesis
  proof (cases out)
    case (Inl e)
    then show ?thesis using False pn by (simp add: preferStorage_miss_rejected)
  next
    case (Inr r)
    show ?thesis
    proof (cases "setItem (localStorage w) k (ToString (JSON_stringify r))")
      case (Inl e)
      then show ?thesis using False pn Inr by (simp add: preferStorage_miss_quota)
    next
      case st: (Inr st)
      then show ?thesis
        using False pn Inr assms by (simp add: preferStorage_miss_stored getItem_setItem)
    qed
  qed
qed

lemma preferStorage_keeps_keys:
  assumes "getItem (localStorage w) k' \<noteq> None"
  shows "getItem (localStorage (snd (preferStorage k p w))) k' \<noteq> None"
proof (cases "k' = k")
  case False
  then show ?thesis using assms by (simp add: preferStorage_frame)
next
  case True
  show ?thesis
  proof (cases "truthy (getItem (localStorage w) k)")
    case t: True
    then show ?thesis using assms True by (simp add: preferStorage_def)
  next
    case f: False
    obtain out n where pn: "p (outside w) = (out, n)" by (cases "p (outside w)")
    show ?thesis
    proof (cases out)
      case (Inl e)
      then show ?thesis using f pn assms True by (simp add: preferStorage_miss_rejected)
    next
      case (Inr r)
      show ?thesis
      proof (cases "setItem (localStorage w) k (ToString (JSON_stringify r))")
        case (Inl e)
        then show ?thesis using f pn Inr assms True by (simp add: preferStorage_miss_quota)
      next
        case st: (Inr st)
        then show ?thesis
          using f pn Inr True by (simp add: preferStorage_miss_stored getItem_setItem)
      qed
    qed
  qed
qed




lemma absent_not_truthy:
  "getItem st k = None \<Longrightarrow> \<not> truthy (getItem st k)"
  by (simp add: truthy_def)

lemma preferStorage_miss_result:
  assumes "\<not> truthy (getItem (localStorage w) k)"
  shows "fst (preferStorage k p w) = fst (p (outside w))
       \<or> fst (preferStorage k p w) = Inl QuotaExceededError"
proof -
  obtain out n where pn: "p (outside w) = (out, n)" by (cases "p (outside w)")
  show ?thesis
  proof (cases out)
    case (Inl e)
    then show ?thesis using assms pn by (simp add: preferStorage_miss_rejected)
  next
    case (Inr r)
    show ?thesis
    proof (cases "setItem (localStorage w) k (ToString (JSON_stringify r))")
      case (Inl e)
      then show ?thesis using assms pn Inr by (simp add: preferStorage_miss_quota)
    next
      case st: (Inr st)
      then show ?thesis using assms pn Inr by (simp add: preferStorage_miss_stored)
    qed
  qed
qed

text \<open>
  C2. For a key \<open>k\<close> absent from the store and a producer \<open>p\<close> that fails with \<open>e\<close>, the
  call fails with \<open>e\<close>, the store is unchanged (so there is still no entry under \<open>k\<close>),
  and a following call \<open>preferStorage k p2\<close> invokes \<open>p2\<close>: the outside state is the one
  \<open>p2\<close> leaves after \<open>p\<close>, and the result is what \<open>p2\<close> yields (or the error of a
  rejected write).
\<close>

theorem preferStorage_failure_not_cached:
  assumes "getItem (localStorage w) k = None" and "fst (p (outside w)) = Inl e"
  shows "fst (preferStorage k p w) = Inl e
    \<and> localStorage (snd (preferStorage k p w)) = localStorage w
    \<and> getItem (localStorage (snd (preferStorage k p w))) k = None
    \<and> outside (snd (preferStorage k p w)) = snd (p (outside w))
    \<and> outside (snd (preferStorage k p2 (snd (preferStorage k p w))))
        = snd (p2 (snd (p (outside w))))
    \<and> (fst (preferStorage k p2 (snd (preferStorage k p w))) = fst (p2 (snd (p (outside w))))
        \<or> fst (preferStorage k p2 (snd (preferStorage k p w))) = Inl QuotaExceededError)"
proof -
  let ?n = "snd (p (outside w))"
  let ?w1 = "w\<lparr>outside := ?n\<rparr>"
  have miss: "\<not> truthy (getItem (localStorage w) k)"
    using assms(1) by (rule absent_not_truthy)
  have pn: "p (outside w) = (Inl e, ?n)" using assms(2) by (simp add: prod_eq_iff)
  have first: "preferStorage k p w = (Inl e, ?w1)"
    using miss pn by (rule preferStorage_miss_rejected)
  have miss1: "\<not> truthy (getItem (localStorage ?w1) k)" using miss by simp
  have o2: "outside (snd (preferStorage k p2 ?w1)) = snd (p2 (outside ?w1))"
    using miss1 by (rule preferStorage_miss_outside)
  have r2: "fst (preferStorage k p2 ?w1) = fst (p2 (outside ?w1))
      \<or> fst (preferStorage k p2 ?w1) = Inl QuotaExceededError"
    using miss1 by (rule preferStorage_miss_result)
  show ?thesis using first assms(1) o2 r2 by simp
qed

theorem preferStorage_failure_not_cached_witness:
  "getItem \<lparr>entries = [], quota = 100\<rparr> ''k'' = None
   \<and> fst (counted (Inl (Rejected ''offline'')) 0) = Inl (Rejected ''offline'')
   \<and> preferStorage ''k'' (counted (Inl (Rejected ''offline'')))
        \<lparr>localStorage = \<lparr>entries = [], quota = 100\<rparr>, outside = 0\<rparr>
      = (Inl (Rejected ''offline''), \<lparr>localStorage = \<lparr>entries = [], quota = 100\<rparr>, outside = 1\<rparr>)
   \<and> outside (snd (preferStorage ''k'' (counted (Inr JNull))
        \<lparr>localStorage = \<lparr>entries = [], quota = 100\<rparr>, outside = 1\<rparr>)) = 2"
proof -
  let ?w = "\<lparr>localStorage = \<lparr>entries = [], quota = 100\<rparr>, outside = 0 :: nat\<rparr>"
  let ?p = "counted (Inl (Rejected ''offline''))"
  have h: "getItem (localStorage ?w) ''k'' = None" by (simp add: getItem_def)
  have f: "fst (?p (outside ?w)) = Inl (Rejected ''offline'')" by (simp add: counted_def)
  have first: "preferStorage ''k'' ?p ?w
      = (Inl (Rejected ''offline''), \<lparr>localStorage = \<lparr>entries = [], quota = 100\<rparr>, outside = 1\<rparr>)"
    using preferStorage_failure_not_cached
      [where w = ?w and k = "''k''" and p = ?p and e = "Rejected ''offline''"
         and ?p2.0 = "counted (Inr JNull)"] h f
    by (simp add: counted_def prod_eq_iff)
  show ?thesis
    using preferStorage_failure_not_cached
      [where w = ?w and k = "''k''" and p = ?p and e = "Rejected ''offline''"
         and ?p2.0 = "counted (Inr JNull)"] h f first
    by (simp add: counted_def getItem_def)
qed

text \<open>
  C4, as stated, on a store whose quota is used up: \<open>k\<close> is absent and the producer
  succeeds with \<open>null\<close>, but \<open>setItem\<close> throws, so the call fails with
  \<open>QuotaExceededError\<close>: nothing is written and \<open>null\<close> is not returned.
\<close>

theorem preferStorage_write_rejected_counterexample:
  "getItem \<lparr>entries = [], quota = 0\<rparr> ''k'' = None
   \<and> counted (Inr JNull) 0 = (Inr JNull, 1)
   \<and> preferStorage ''k'' (counted (Inr JNull))
        \<lparr>localStorage = \<lparr>entries = [], quota = 0\<rparr>, outside = 0\<rparr>
      = (Inl QuotaExceededError, \<lparr>localStorage = \<lparr>entries = [], quota = 0\<rparr>, outside = 1\<rparr>)"
  by (simp add: preferStorage_def getItem_def truthy_def counted_def setItem_def usage_def
      ToString_def JSON_stringify_def)

text \<open>
  C4, amended. For a key \<open>k\<close> absent from the store and a producer that succeeds with
  \<open>r\<close>, the call invokes the producer; when the store accepts the write it stores the text
  of \<open>r\<close> under \<open>k\<close> and returns \<open>r\<close>; when the store rejects the write the call fails
  with \<open>QuotaExceededError\<close> and the store is unchanged. The text is \<open>JSON.stringify r\<close>,
  except for \<open>r = undefined\<close>, where it is the word \<open>undefined\<close>.
\<close>

theorem preferStorage_miss_writes:
  assumes "getItem (localStorage w) k = None" and "fst (p (outside w)) = Inr r"
  shows "outside (snd (preferStorage k p w)) = snd (p (outside w))
    \<and> (\<forall>st. setItem (localStorage w) k (ToString (JSON_stringify r)) = Inr st \<longrightarrow>
          fst (preferStorage k p w) = Inr r
          \<and> localStorage (snd (preferStorage k p w)) = st
          \<and> getItem st k = Some (ToString (JSON_stringify r)))
    \<and> (\<forall>e. setItem (localStorage w) k (ToString (JSON_stringify r)) = Inl e \<longrightarrow>
          fst (preferStorage k p w) = Inl QuotaExceededError
          \<and> localStorage (snd (preferStorage k p w)) = localStorage w)
    \<and> (r \<noteq> JUndefined \<longrightarrow> JSON_stringify r = Some (ToString (JSON_stringify r)))
    \<and> (r = JUndefined \<longrightarrow> ToString (JSON_stringify r) = ''undefined'')"
proof -
  let ?n = "snd (p (outside w))"
  let ?text = "ToString (JSON_stringify r)"
  have miss: "\<not> truthy (getItem (localStorage w) k)"
    using assms(1) by (rule absent_not_truthy)
  have pn: "p (outside w) = (Inr r, ?n)" using assms(2) by (simp add: prod_eq_iff)
  have a: "outside (snd (preferStorage k p w)) = ?n"
    using miss by (rule preferStorage_miss_outside)
  have b: "fst (preferStorage k p w) = Inr r
      \<and> localStorage (snd (preferStorage k p w)) = st \<and> getItem st k = Some ?text"
    if "setItem (localStorage w) k ?text = Inr st" for st
  proof -
    have "preferStorage k p w = (Inr r, \<lparr>localStorage = st, outside = ?n\<rparr>)"
      using miss pn that by (rule preferStorage_miss_stored)
    then show ?thesis using that by (simp add: getItem_setItem)
  qed
  have c: "fst (preferStorage k p w) = Inl QuotaExceededError
      \<and> localStorage (snd (preferStorage k p w)) = localStorage w"
    if "setItem (localStorage w) k ?text = Inl e" for e
  proof -
    have "preferStorage k p w = (Inl QuotaExceededError, w\<lparr>outside := ?n\<rparr>)"
      using miss pn that by (rule preferStorage_miss_quota)
    then show ?thesis by simp
  qed
  have d: "r \<noteq> JUndefined \<longrightarrow> JSON_stringify r = Some ?text"
    by (cases r) (simp_all add: JSON_stringify_def ToString_def)
  have e: "r = JUndefined \<longrightarrow> ?text = ''undefined''"
    by (simp add: JSON_stringify_def ToString_def)
  show ?thesis using a b c d e by blast
qed

theorem preferStorage_miss_writes_witness:
  "getItem \<lparr>entries = [], quota = 100\<rparr> ''k'' = None
   \<and> fst (counted (Inr (JNum 7)) 0) = Inr (JNum 7)
   \<and> JNum 7 \<noteq> JUndefined
   \<and> setItem \<lparr>entries = [], quota = 100\<rparr> ''k'' (ToString (JSON_stringify (JNum 7)))
       = Inr \<lparr>entries = [(''k'', ''7'')], quota = 100\<rparr>
   \<and> fst (preferStorage ''k'' (counted (Inr (JNum 7)))
         \<lparr>localStorage = \<lparr>entries = [], quota = 100\<rparr>, outside = 0\<rparr>) = Inr (JNum 7)
   \<and> localStorage (snd (preferStorage ''k'' (counted (Inr (JNum 7)))
         \<lparr>localStorage = \<lparr>entries = [], quota = 100\<rparr>, outside = 0\<rparr>))
       = \<lparr>entries = [(''k'', ''7'')], quota = 100\<rparr>
   \<and> outside (snd (preferStorage ''k'' (counted (Inr (JNum 7)))
         \<lparr>localStorage = \<lparr>entries = [], quota = 100\<rparr>, outside = 0\<rparr>)) = 1
   \<and> JSON_stringify (JNum 7) = Some ''7''
   \<and> setItem \<lparr>entries = [], quota = 3\<rparr> ''k'' (ToString (JSON_stringify JUndefined))
       = Inl QuotaExceededError
   \<and> ToString (JSON_stringify JUndefined) = ''undefined''
   \<and> fst (preferStorage ''k'' (counted (Inr JUndefined))
         \<lparr>localStorage = \<lparr>entries = [], quota = 3\<rparr>, outside = 0\<rparr>) = Inl QuotaExceededError
   \<and> localStorage (snd (preferStorage ''k'' (counted (Inr JUndefined))
         \<lparr>localStorage = \<lparr>entries = [], quota = 3\<rparr>, outside = 0\<rparr>))
       = \<lparr>entries = [], quota = 3\<rparr>"
proof -
  let ?w = "\<lparr>localStorage = \<lparr>entries = [], quota = 100\<rparr>, outside = 0 :: nat\<rparr>"
  let ?full = "\<lparr>localStorage = \<lparr>entries = [], quota = 3\<rparr>, outside = 0 :: nat\<rparr>"
  have h: "getItem (localStorage ?w) ''k'' = None" by (simp add: getItem_def)
  have p: "fst (counted (Inr (JNum 7)) (outside ?w)) = Inr (JNum 7)" by (simp add: counted_def)
  have t: "ToString (JSON_stringify (JNum 7)) = ''7''" by code_simp
  have s: "setItem (localStorage ?w) ''k'' (ToString (JSON_stringify (JNum 7)))
      = Inr \<lparr>entries = [(''k'', ''7'')], quota = 100\<rparr>"
    by (simp add: t setItem_def usage_def)
  have h2: "getItem (localStorage ?full) ''k'' = None" by (simp add: getItem_def)
  have p2: "fst (counted (Inr JUndefined) (outside ?full)) = Inr JUndefined"
    by (simp add: counted_def)
  have s2: "setItem (localStorage ?full) ''k'' (ToString (JSON_stringify JUndefined))
      = Inl QuotaExceededError"
    by (simp add: setItem_def usage_def ToString_def JSON_stringify_def)
  show ?thesis
    using preferStorage_miss_writes
      [where w = ?w and k = "''k''" and p = "counted (Inr (JNum 7))" and r = "JNum 7"]
      preferStorage_miss_writes
      [where w = ?full and k = "''k''" and p = "counted (Inr JUndefined)" and r = JUndefined]
      h p s t h2 p2 s2
    by (simp add: counted_def getItem_def)
qed

lemma calls_Cons_world:
  "snd (calls ((k, p) # cs) w) = snd (calls cs (snd (preferStorage k p w)))"
  by (simp split: prod.splits)

lemma calls_keep_keys:
  assumes "getItem (localStorage w) k' \<noteq> None"
  shows "getItem (localStorage (snd (calls cs w))) k' \<noteq> None"
  using assms
proof (induction cs arbitrary: w)
  case Nil
  then show ?case by simp
next
  case (Cons c cs)
  obtain k p where c: "c = (k, p)" by (cases c)
  have "getItem (localStorage (snd (preferStorage k p w))) k' \<noteq> None"
    using Cons.prems by (rule preferStorage_keeps_keys)
  then have "getItem (localStorage (snd (calls cs (snd (preferStorage k p w))))) k' \<noteq> None"
    by (rule Cons.IH)
  then show ?case unfolding c calls_Cons_world .
qed

text \<open>
  C7. A call \<open>preferStorage k p\<close> leaves the value under every other key \<open>k'\<close> as it was,
  and a key that is in the store is still there after the call, and after any sequence
  of calls.
\<close>

theorem preferStorage_frame_no_delete:
  "(k' \<noteq> k \<longrightarrow>
      getItem (localStorage (snd (preferStorage k p w))) k' = getItem (localStorage w) k')
   \<and> (getItem (localStorage w) k'' \<noteq> None \<longrightarrow>
        getItem (localStorage (snd (preferStorage k p w))) k'' \<noteq> None
        \<and> getItem (localStorage (snd (calls cs w))) k'' \<noteq> None)"
  using preferStorage_frame [of k' k p w] preferStorage_keeps_keys [of w k'' k p]
    calls_keep_keys [of w k'' cs]
  by blast

theorem preferStorage_frame_no_delete_witness:
  "''a'' \<noteq> ''b''
   \<and> getItem \<lparr>entries = [(''a'', ''1'')], quota = 100\<rparr> ''a'' \<noteq> None
   \<and> getItem (localStorage (snd (preferStorage ''b'' (counted (Inr JNull))
        \<lparr>localStorage = \<lparr>entries = [(''a'', ''1'')], quota = 100\<rparr>, outside = 0\<rparr>))) ''a''
      = Some ''1''
   \<and> getItem (localStorage (snd (calls [(''a'', counted (Inr JNull)), (''b'', counted (Inr JNull))]
        \<lparr>localStorage = \<lparr>entries = [(''a'', ''1'')], quota = 100\<rparr>, outside = 0\<rparr>))) ''a''
      \<noteq> None"
proof -
  let ?w = "\<lparr>localStorage = \<lparr>entries = [(''a'', ''1'')], quota = 100\<rparr>, outside = 0 :: nat\<rparr>"
  have h: "getItem (localStorage ?w) ''a'' \<noteq> None" by (simp add: getItem_def)
  have d: "''a'' \<noteq> ''b''" by simp
  show ?thesis
    using preferStorage_frame_no_delete [of "''a''" "''b''" "counted (Inr JNull)" ?w "''a''"
        "[(''a'', counted (Inr JNull)), (''b'', counted (Inr JNull))]"] h d
    by (simp add: getItem_def)
qed

subsection \<open>Writing through the cache and reading back\<close>

lemma json_value_facts:
  "json_value v \<Longrightarrow> wellformed v \<and> json_image v = v \<and> v \<noteq> JUndefined"
  "json_elements vs \<Longrightarrow> wellformed_elements vs \<and> image_elements vs = vs"
  "json_members kvs \<Longrightarrow> wellformed_members kvs \<and> image_members kvs = kvs"
  by (induction v and vs and kvs rule: json_value_json_elements_json_members.induct) auto


lemma stored_text_parse:
  assumes "wellformed v" and "v \<noteq> JUndefined"
  shows "JSON_parse (ToString (JSON_stringify v)) = Inr (json_image v)"
proof -
  obtain t where t: "JSON_stringify v = Some t"
    using assms(2) Serialize_None_iff [of v]
    by (cases "JSON_stringify v") (auto simp: JSON_stringify_def)
  then have "JSON_parse t = Inr (json_image v)" using assms(1) by (intro JSON_parse_stringify)
  then show ?thesis using t by (simp add: ToString_def)
qed

lemma JSON_parse_undefined: "JSON_parse ''undefined'' = Inl SyntaxError"
  by code_simp

lemma JSON_parse_empty: "JSON_parse [] = Inl SyntaxError"
  by (simp add: JSON_parse_def skip_ws_def)

lemma preferStorage_write_then_read:
  assumes "\<not> truthy (getItem (localStorage w) k)" and "fst (p (outside w)) = Inr v"
    and "setItem (localStorage w) k (ToString (JSON_stringify v)) = Inr st"
  shows "fst (preferStorage k p w) = Inr v"
    and "outside (snd (preferStorage k p w)) = snd (p (outside w))"
    and "localStorage (snd (preferStorage k p w)) = st"
    and "preferStorage k q (snd (preferStorage k p w))
       = (JSON_parse (ToString (JSON_stringify v)), snd (preferStorage k p w))"
proof -
  let ?n = "snd (p (outside w))"
  let ?w1 = "\<lparr>localStorage = st, outside = ?n\<rparr>"
  have pn: "p (outside w) = (Inr v, ?n)" using assms(2) by (simp add: prod_eq_iff)
  have first: "preferStorage k p w = (Inr v, ?w1)"
    using assms(1) pn assms(3) by (rule preferStorage_miss_stored)
  have entry: "getItem (localStorage ?w1) k = Some (ToString (JSON_stringify v))"
    using assms(3) by (simp add: getItem_setItem)
  have second: "preferStorage k q ?w1 = (JSON_parse (ToString (JSON_stringify v)), ?w1)"
    using entry stored_text_nonempty by (rule preferStorage_hit)
  show "fst (preferStorage k p w) = Inr v" using first by simp
  show "outside (snd (preferStorage k p w)) = snd (p (outside w))" using first by simp
  show "localStorage (snd (preferStorage k p w)) = st" using first by simp
  show "preferStorage k q (snd (preferStorage k p w))
       = (JSON_parse (ToString (JSON_stringify v)), snd (preferStorage k p w))"
    using first second by simp
qed



text \<open>
  C1, as stated, on a store that holds the key with the empty string: the key is present,
  yet the producer is invoked (the counter goes from 0 to 1) and its value is returned
  instead of a deserialized stored value.
\<close>

theorem preferStorage_present_but_empty_counterexample:
  "getItem \<lparr>entries = [(''movie'', [])], quota = 100\<rparr> ''movie'' = Some []
   \<and> preferStorage ''movie'' (counted (Inr JNull))
        \<lparr>localStorage = \<lparr>entries = [(''movie'', [])], quota = 100\<rparr>, outside = 0\<rparr>
      = (Inr JNull, \<lparr>localStorage = \<lparr>entries = [(''movie'', ''null'')], quota = 100\<rparr>, outside = 1\<rparr>)"
  by (simp add: preferStorage_def getItem_def truthy_def counted_def setItem_def usage_def
      ToString_def JSON_stringify_def)

text \<open>
  C1, amended. For a key \<open>k\<close> whose stored value is a non-empty string \<open>s\<close> and any producer
  \<open>p\<close>, the call returns \<open>JSON.parse s\<close> (its \<open>SyntaxError\<close> when \<open>s\<close> is not JSON) and leaves
  the world as it was: \<open>p\<close> is not invoked. In particular, for a key without a non-empty
  entry and a producer that yields a JSON value \<open>r\<close>, with the write accepted by the
  store, the first call invokes the producer once and returns \<open>r\<close>, and a second call,
  with any producer, returns \<open>r\<close> and changes nothing: no producer runs again.
\<close>

theorem preferStorage_hit_skips_producer:
  "(\<forall>s. getItem (localStorage w) k = Some s \<and> s \<noteq> [] \<longrightarrow>
        preferStorage k p w = (JSON_parse s, w))
   \<and> (\<forall>r st. \<not> truthy (getItem (localStorage w) k) \<and> fst (p (outside w)) = Inr r
          \<and> json_value r
          \<and> setItem (localStorage w) k (ToString (JSON_stringify r)) = Inr st \<longrightarrow>
        fst (preferStorage k p w) = Inr r
        \<and> outside (snd (preferStorage k p w)) = snd (p (outside w))
        \<and> preferStorage k p2 (snd (preferStorage k p w))
            = (Inr r, snd (preferStorage k p w)))"
proof -
  have a: "preferStorage k p w = (JSON_parse s, w)"
    if "getItem (localStorage w) k = Some s" and "s \<noteq> []" for s
    using that by (rule preferStorage_hit)
  have b: "fst (preferStorage k p w) = Inr r
        \<and> outside (snd (preferStorage k p w)) = snd (p (outside w))
        \<and> preferStorage k p2 (snd (preferStorage k p w))
            = (Inr r, snd (preferStorage k p w))"
    if h: "\<not> truthy (getItem (localStorage w) k)" "fst (p (outside w)) = Inr r"
      "setItem (localStorage w) k (ToString (JSON_stringify r)) = Inr st"
      and j: "json_value r" for r st
  proof -
    have wf: "wellformed r" "r \<noteq> JUndefined" "json_image r = r"
      using json_value_facts(1) [OF j] by simp_all
    have t: "JSON_parse (ToString (JSON_stringify r)) = Inr r"
      using stored_text_parse [OF wf(1,2)] wf(3) by simp
    have 1: "fst (preferStorage k p w) = Inr r"
      using h by (rule preferStorage_write_then_read(1))
    have 2: "outside (snd (preferStorage k p w)) = snd (p (outside w))"
      using h by (rule preferStorage_write_then_read(2))
    have 3: "preferStorage k p2 (snd (preferStorage k p w))
        = (JSON_parse (ToString (JSON_stringify r)), snd (preferStorage k p w))"
      using h by (rule preferStorage_write_then_read(4))
    show ?thesis using 1 2 3 t by simp
  qed
  show ?thesis using a b by blast
qed

theorem preferStorage_hit_skips_producer_witness:
  "getItem \<lparr>entries = [(''k'', ''[1]'')], quota = 100\<rparr> ''k'' = Some ''[1]''
   \<and> preferStorage ''k'' (counted (Inr JNull))
        \<lparr>localStorage = \<lparr>entries = [(''k'', ''[1]'')], quota = 100\<rparr>, outside = 0\<rparr>
      = (Inr (JArr [JNum 1]),
         \<lparr>localStorage = \<lparr>entries = [(''k'', ''[1]'')], quota = 100\<rparr>, outside = 0\<rparr>)
   \<and> \<not> truthy (getItem \<lparr>entries = [], quota = 100\<rparr> ''k'')
   \<and> json_value (JArr [JNum 1])
   \<and> fst (preferStorage ''k'' (counted (Inr (JArr [JNum 1])))
        \<lparr>localStorage = \<lparr>entries = [], quota = 100\<rparr>, outside = 0\<rparr>) = Inr (JArr [JNum 1])
   \<and> outside (snd (preferStorage ''k'' (counted (Inr (JArr [JNum 1])))
        \<lparr>localStorage = \<lparr>entries = [], quota = 100\<rparr>, outside = 0\<rparr>)) = 1
   \<and> fst (preferStorage ''k'' (counted (Inr (JArr [JNum 1])))
        (snd (preferStorage ''k'' (counted (Inr (JArr [JNum 1])))
           \<lparr>localStorage = \<lparr>entries = [], quota = 100\<rparr>, outside = 0\<rparr>))) = Inr (JArr [JNum 1])
   \<and> outside (snd (preferStorage ''k'' (counted (Inr (JArr [JNum 1])))
        (snd (preferStorage ''k'' (counted (Inr (JArr [JNum 1])))
           \<lparr>localStorage = \<lparr>entries = [], quota = 100\<rparr>, outside = 0\<rparr>)))) = 1"
proof -
  let ?r = "JArr [JNum 1]"
  let ?w = "\<lparr>localStorage = \<lparr>entries = [], quota = 100\<rparr>, outside = 0 :: nat\<rparr>"
  let ?h = "\<lparr>localStorage = \<lparr>entries = [(''k'', ''[1]'')], quota = 100\<rparr>, outside = 0 :: nat\<rparr>"
  let ?st = "\<lparr>entries = [(''k'', ToString (JSON_stringify ?r))], quota = 100\<rparr>"
  have g: "getItem (localStorage ?h) ''k'' = Some ''[1]''" by (simp add: getItem_def)
  have parse: "JSON_parse ''[1]'' = Inr ?r" by code_simp
  have miss: "\<not> truthy (getItem (localStorage ?w) ''k'')" by (simp add: getItem_def truthy_def)
  have p: "fst (counted (Inr ?r) (outside ?w)) = Inr ?r" by (simp add: counted_def)
  have u: "usage [(''k'', ToString (JSON_stringify ?r))] \<le> 100" by code_simp
  have s: "setItem (localStorage ?w) ''k'' (ToString (JSON_stringify ?r)) = Inr ?st"
    using u by (simp add: setItem_def)
  have j: "json_value ?r" by (simp add: max_safe_integer_def)
  have hit: "preferStorage ''k'' (counted (Inr JNull)) ?h = (Inr ?r, ?h)"
    using preferStorage_hit_skips_producer
      [where w = ?h and k = "''k''" and p = "counted (Inr JNull)"] g parse
    by simp
  show ?thesis
    using preferStorage_hit_skips_producer
      [where w = ?w and k = "''k''" and p = "counted (Inr ?r)" and ?p2.0 = "counted (Inr ?r)"]
      miss p s j hit g
    by (simp add: counted_def)
qed

subsection \<open>The lifetime of an entry\<close>










text \<open>
  C5, on the code. With the server out of reach, \<open>get\<close> does not fail: its promise is
  fulfilled with \<open>undefined\<close>, the text \<open>undefined\<close> is stored under the key, and the error
  goes to the console only. The same happens for a response that is not ok and for a
  body that is not JSON. On the store so written, a later \<open>get\<close> for the key fails with
  \<open>SyntaxError\<close> and makes no request, although the server now answers.
\<close>

theorem get_swallows_fetch_failure:
  "fst (get ''/x'' \<lparr>localStorage = \<lparr>entries = [], quota = 100\<rparr>,
        outside = \<lparr>network = unreachable, requests = [], console = []\<rparr>\<rparr>) = Inr JUndefined
   \<and> entries (localStorage (snd (get ''/x'' \<lparr>localStorage = \<lparr>entries = [], quota = 100\<rparr>,
        outside = \<lparr>network = unreachable, requests = [], console = []\<rparr>\<rparr>)))
      = [(''/x'', ''undefined'')]
   \<and> console (outside (snd (get ''/x'' \<lparr>localStorage = \<lparr>entries = [], quota = 100\<rparr>,
        outside = \<lparr>network = unreachable, requests = [], console = []\<rparr>\<rparr>))) = [TypeError]
   \<and> fst (get ''/x'' \<lparr>localStorage = \<lparr>entries = [], quota = 100\<rparr>,
        outside = \<lparr>network = answering False ''Not Found'', requests = [], console = []\<rparr>\<rparr>)
      = Inr JUndefined
   \<and> fst (get ''/x'' \<lparr>localStorage = \<lparr>entries = [], quota = 100\<rparr>,
        outside = \<lparr>network = answering True ''<html>'', requests = [], console = []\<rparr>\<rparr>)
      = Inr JUndefined
   \<and> fst (get ''/x'' \<lparr>localStorage = \<lparr>entries = [(''/x'', ''undefined'')], quota = 100\<rparr>,
        outside = \<lparr>network = answering True ''[1]'', requests = [], console = []\<rparr>\<rparr>)
      = Inl SyntaxError
   \<and> requests (outside (snd (get ''/x''
        \<lparr>localStorage = \<lparr>entries = [(''/x'', ''undefined'')], quota = 100\<rparr>,
        outside = \<lparr>network = answering True ''[1]'', requests = [], console = []\<rparr>\<rparr>))) = []"
proof -
  have html: "JSON_parse ''<html>'' = Inl SyntaxError" by code_simp
  show ?thesis
    by (simp add: get_def preferStorage_def getItem_def truthy_def catch_log_def fetch_json_def
        unreachable_def answering_def setItem_def usage_def ToString_def JSON_stringify_def
        JSON_parse_undefined html)
qed

end
